theory Spec2Isabelle
  imports Main "HOL-Library.Word" "HOL-Library.Sublist"
begin

text \<open>
  A shallow embedding of the core of oxen-libquic: the Ticker and the Loop (loop.hpp,
  loop.cpp), the Network (network.hpp, network.cpp) and the BTRequestStream with its
  message (btstream.cpp), followed by the properties proved of them. Where the sources
  hold two versions of a file, the version a property is about is named with it.
  Callbacks and handles are numbers; a thrown exception, and undefined behaviour, are
  values of the result.
\<close>

chapter \<open>The model\<close>

section \<open>Ticker\<close>

text \<open>
  \<^verbatim>\<open>struct Ticker\<close> (loop.hpp) holds the flag \<^verbatim>\<open>_is_running\<close>, initially
  \<^verbatim>\<open>false\<close>, and the callback \<^verbatim>\<open>f\<close>; a callback is identified by a number,
  \<open>None\<close> is \<^verbatim>\<open>nullptr\<close>. \<^verbatim>\<open>start()\<close> and \<^verbatim>\<open>stop()\<close> (loop.cpp) test the
  flag and then call libevent's \<^verbatim>\<open>event_add\<close> / \<^verbatim>\<open>event_del\<close>. libevent is
  not part of the repository, so whether that call returned 0 is the input \<open>ev_ok\<close>.
\<close>

type_synonym callback = nat

record ticker =
  is_running :: bool
  f :: "callback option"

definition new_ticker :: ticker where
  "new_ticker = \<lparr>is_running = False, f = None\<rparr>"

definition start :: "bool \<Rightarrow> ticker \<Rightarrow> bool \<times> ticker" where
  "start ev_ok t =
     (if is_running t then (False, t)
      else if \<not> ev_ok then (False, t)
      else (True, t\<lparr>is_running := True\<rparr>))"

definition stop :: "bool \<Rightarrow> ticker \<Rightarrow> bool \<times> ticker" where
  "stop ev_ok t =
     (if \<not> is_running t then (False, t)
      else if \<not> ev_ok then (False, t)
      else (True, t\<lparr>is_running := False\<rparr>))"

text \<open>A call of the public API, with the outcome of the libevent call it makes.\<close>

datatype ticker_call = Start bool | Stop bool

fun is_start :: "ticker_call \<Rightarrow> bool" where
  "is_start (Start _) = True"
| "is_start (Stop _) = False"

fun do_call :: "ticker_call \<Rightarrow> ticker \<Rightarrow> bool \<times> ticker" where
  "do_call (Start ok) t = start ok t"
| "do_call (Stop ok) t = stop ok t"

text \<open>
  Running a sequence of calls: the final ticker, and the latest call that returned
  \<^verbatim>\<open>true\<close> (\<open>None\<close> when no call of the sequence did).
\<close>

fun run_calls :: "ticker_call list \<Rightarrow> ticker \<Rightarrow> ticker_call option \<Rightarrow> ticker \<times> ticker_call option" where
  "run_calls [] t l = (t, l)"
| "run_calls (c # cs) t l =
     (case do_call c t of (r, t') \<Rightarrow> run_calls cs t' (if r then Some c else l))"

section \<open>Loop: the weak-bound overload of call\_every\<close>

text \<open>
  (The first version of loop.hpp and loop.cpp; the second has no such overload.)
  \<^verbatim>\<open>Loop::call_every(interval, weak_ptr<void> caller, f)\<close> creates a Ticker with
  \<^verbatim>\<open>make_handler()\<close>, moves the only strong reference to it (\<^verbatim>\<open>hndlr\<close>) into
  the task, and calls \<^verbatim>\<open>start_event\<close> with the defaults \<^verbatim>\<open>persist = true\<close>,
  \<^verbatim>\<open>start_immediately = true\<close>. The task is
  \<^verbatim>\<open>if (auto ptr = owner.lock()) func(); else hndlr.reset();\<close>.
  Resetting the last strong reference runs the deleter on the loop thread, which
  destroys the Ticker: \<^verbatim>\<open>~Ticker\<close> frees the libevent event, so it is no longer
  pending. The world of one such ticker: whether the owner can still be locked, whether
  \<^verbatim>\<open>hndlr\<close> still holds the Ticker, whether the event is pending in libevent, and
  two counters, of the runs of the user callback \<^verbatim>\<open>func\<close> and of the runs of the
  event callback. \<open>func_drops n\<close> tells whether the run number \<open>n\<close> of \<^verbatim>\<open>func\<close>
  releases the owner (as the repository's own test does).
\<close>

record wb_world =
  owner_alive :: bool
  hndlr :: bool
  tick :: ticker
  ev_pending :: bool
  user_calls :: nat
  ev_fires :: nat

definition call_every_weak :: "bool \<Rightarrow> bool \<Rightarrow> wb_world" where
  "call_every_weak owner ev_ok =
     (case start ev_ok new_ticker of
        (started, t) \<Rightarrow>
          \<lparr>owner_alive = owner, hndlr = True, tick = t, ev_pending = started,
           user_calls = 0, ev_fires = 0\<rparr>)"

definition weak_task :: "(nat \<Rightarrow> bool) \<Rightarrow> wb_world \<Rightarrow> wb_world" where
  "weak_task func_drops w =
     (if owner_alive w
      then w\<lparr>user_calls := Suc (user_calls w),
             owner_alive := \<not> func_drops (user_calls w)\<rparr>
      else w\<lparr>hndlr := False, ev_pending := False\<rparr>)"

text \<open>
  What can happen to the world: the timer fires (libevent runs the callback of a
  pending event only), or the owner is released elsewhere.
\<close>

datatype wb_event = Timer_fires | Owner_dropped

fun wb_step :: "(nat \<Rightarrow> bool) \<Rightarrow> wb_event \<Rightarrow> wb_world \<Rightarrow> wb_world" where
  "wb_step func_drops Timer_fires w =
     (if ev_pending w then weak_task func_drops (w\<lparr>ev_fires := Suc (ev_fires w)\<rparr>) else w)"
| "wb_step func_drops Owner_dropped w = w\<lparr>owner_alive := False\<rparr>"

fun wb_run :: "(nat \<Rightarrow> bool) \<Rightarrow> wb_event list \<Rightarrow> wb_world \<Rightarrow> wb_world" where
  "wb_run func_drops [] w = w"
| "wb_run func_drops (e # es) w = wb_run func_drops es (wb_step func_drops e w)"

section \<open>Loop::call\_later\<close>








section \<open>Loop: the registry of tickers\<close>

text \<open>
  (The second version of loop.hpp and loop.cpp.) \<^verbatim>\<open>Loop::tickers\<close> is an
  \<^verbatim>\<open>unordered_map<caller_id_t, list<weak_ptr<Ticker>>>\<close>: a list of entries, one
  for each key, in the order in which the map is iterated (the standard leaves that
  order open; here a new key goes to the end). A \<^verbatim>\<open>weak_ptr\<close> is the identity of a
  Ticker (a number, never reused); the live Tickers are the domain of \<open>heap\<close>, so
  \<^verbatim>\<open>lock()\<close> succeeds on \<open>t\<close> exactly when \<open>heap L t\<close> is not \<open>None\<close>.
  \<open>del_ok t\<close> is the outcome of \<^verbatim>\<open>event_del\<close> on ticker \<open>t\<close>.
\<close>

type_synonym caller_id_t = "16 word"

definition loop_id :: caller_id_t where
  "loop_id = 0"

record loop =
  tickers :: "(caller_id_t \<times> nat list) list"
  heap :: "nat \<rightharpoonup> ticker"
  next_handle :: nat
  loop_thread_running :: bool

definition new_loop :: loop where
  "new_loop = \<lparr>tickers = [], heap = Map.empty, next_handle = 0,
               loop_thread_running = True\<rparr>"

definition stop_one :: "(nat \<Rightarrow> bool) \<Rightarrow> nat \<Rightarrow> (nat \<rightharpoonup> ticker) \<Rightarrow> (nat \<rightharpoonup> ticker)" where
  "stop_one del_ok t h =
     (case h t of
        None \<Rightarrow> h
      | Some k \<Rightarrow> h(t \<mapsto> snd (stop (del_ok t) (k\<lparr>f := None\<rparr>))))"

definition stop_tickers :: "(nat \<Rightarrow> bool) \<Rightarrow> caller_id_t \<Rightarrow> loop \<Rightarrow> loop" where
  "stop_tickers del_ok caller_id L =
     (case map_of (tickers L) caller_id of
        None \<Rightarrow> L
      | Some list \<Rightarrow> L\<lparr>heap := fold (stop_one del_ok) list (heap L)\<rparr>)"

definition clear_old_tickers :: "loop \<Rightarrow> loop" where
  "clear_old_tickers L =
     L\<lparr>tickers := map (\<lambda>(i, list). (i, filter (\<lambda>t. heap L t \<noteq> None) list)) (tickers L)\<rparr>"

text \<open>\<^verbatim>\<open>tickers[_id].push_back(t)\<close>: the entry is made when the key is new.\<close>

fun push_back_at :: "caller_id_t \<Rightarrow> nat \<Rightarrow> (caller_id_t \<times> nat list) list \<Rightarrow> (caller_id_t \<times> nat list) list" where
  "push_back_at caller_id t [] = [(caller_id, [t])]"
| "push_back_at caller_id t ((i, list) # es) =
     (if i = caller_id then (i, list @ [t]) # es
      else (i, list) # push_back_at caller_id t es)"

definition make_handler :: "caller_id_t \<Rightarrow> loop \<Rightarrow> nat \<times> loop" where
  "make_handler caller_id L0 =
     (let L = clear_old_tickers L0;
          t = next_handle L
      in (t, L\<lparr>heap := (heap L)(t \<mapsto> new_ticker),
               next_handle := Suc t,
               tickers := push_back_at caller_id t (tickers L)\<rparr>))"

definition stop_thread :: "loop \<Rightarrow> loop" where
  "stop_thread L = L\<lparr>loop_thread_running := False\<rparr>"

text \<open>
  \<^verbatim>\<open>Loop::~Loop\<close> stops the thread and then, for every entry of \<^verbatim>\<open>tickers\<close>,
  clears the callback of every live ticker of its list and stops it. After it the Loop
  and its registry are gone; the Tickers whose handles are held elsewhere remain.
\<close>

definition Loop_dtor :: "(nat \<Rightarrow> bool) \<Rightarrow> loop \<Rightarrow> loop" where
  "Loop_dtor del_ok L0 =
     (let L = stop_thread L0
      in L\<lparr>heap := fold (\<lambda>(i, list). fold (stop_one del_ok) list) (tickers L) (heap L)\<rparr>)"

text \<open>
  What happens to a Loop and its Tickers: a Ticker is made for a caller id, its
  callback is set, it is started or stopped through its handle, its last handle is
  dropped (the Ticker is destroyed), or the tickers of a caller id are stopped.
\<close>

datatype loop_op =
    Make_handler caller_id_t
  | Set_callback nat callback
  | Ticker_start nat bool
  | Ticker_stop nat bool
  | Ticker_destroyed nat
  | Stop_tickers caller_id_t

definition on_ticker :: "nat \<Rightarrow> (ticker \<Rightarrow> ticker) \<Rightarrow> loop \<Rightarrow> loop" where
  "on_ticker t g L =
     (case heap L t of None \<Rightarrow> L | Some k \<Rightarrow> L\<lparr>heap := (heap L)(t \<mapsto> g k)\<rparr>)"

fun loop_step :: "(nat \<Rightarrow> bool) \<Rightarrow> loop \<Rightarrow> loop_op \<Rightarrow> loop" where
  "loop_step del_ok L (Make_handler i) = snd (make_handler i L)"
| "loop_step del_ok L (Set_callback t c) = on_ticker t (\<lambda>k. k\<lparr>f := Some c\<rparr>) L"
| "loop_step del_ok L (Ticker_start t ok) = on_ticker t (\<lambda>k. snd (start ok k)) L"
| "loop_step del_ok L (Ticker_stop t ok) = on_ticker t (\<lambda>k. snd (stop ok k)) L"
| "loop_step del_ok L (Ticker_destroyed t) = L\<lparr>heap := (heap L)(t := None)\<rparr>"
| "loop_step del_ok L (Stop_tickers i) = stop_tickers del_ok i L"

definition registered :: "loop \<Rightarrow> caller_id_t \<Rightarrow> nat \<Rightarrow> bool" where
  "registered L i t = (case map_of (tickers L) i of None \<Rightarrow> False | Some l \<Rightarrow> t \<in> set l)"

text \<open>
  The invariant of the registry: the map has one entry for a key, every registered
  ticker was made earlier, and no ticker is registered under two caller ids.
\<close>

definition registry_ok :: "loop \<Rightarrow> bool" where
  "registry_ok L =
     (distinct (map fst (tickers L))
      \<and> (\<forall>i t. registered L i t \<longrightarrow> t < next_handle L)
      \<and> (\<forall>i j t. registered L i t \<longrightarrow> registered L j t \<longrightarrow> i = j))"

section \<open>Network\<close>

text \<open>
  \<^verbatim>\<open>caller_id_t Network::next_net_id = 0\<close> is a static \<^verbatim>\<open>uint16_t\<close>; both
  constructors initialise \<^verbatim>\<open>net_id{++next_net_id}\<close>, and the copy constructor and
  \<^verbatim>\<open>create_linked_network\<close> go through them. \<open>Network_ctor\<close> takes the counter and
  returns the new Network's id and the counter after it.
\<close>

definition initial_next_net_id :: caller_id_t where
  "initial_next_net_id = 0"

definition Network_ctor :: "caller_id_t \<Rightarrow> caller_id_t \<times> caller_id_t" where
  "Network_ctor next_net_id = (next_net_id + 1, next_net_id + 1)"

text \<open>The ids given to \<open>n\<close> Networks constructed one after the other.\<close>

fun construct_networks :: "nat \<Rightarrow> caller_id_t \<Rightarrow> caller_id_t list" where
  "construct_networks 0 c = []"
| "construct_networks (Suc n) c =
     (case Network_ctor c of (i, c') \<Rightarrow> i # construct_networks n c')"

text \<open>
  \<^verbatim>\<open>Network::~Network\<close>: \<^verbatim>\<open>close_gracefully()\<close> closes the connections of the
  Network's own endpoints and touches no ticker; then the loop thread is stopped when
  this Network holds the last reference to the Loop (\<open>use_count\<close> is
  \<^verbatim>\<open>_loop.use_count()\<close>: every Network on the Loop, and every other owner, counts
  for one), and the tickers of \<^verbatim>\<open>net_id\<close> are stopped. After the body the member
  \<^verbatim>\<open>_loop\<close> is released, which destroys the Loop when this was the last reference.
\<close>

definition Network_dtor :: "(nat \<Rightarrow> bool) \<Rightarrow> nat \<Rightarrow> caller_id_t \<Rightarrow> loop \<Rightarrow> loop" where
  "Network_dtor del_ok use_count net_id L0 =
     (let L1 = (if use_count = 1 then stop_thread L0 else L0);
          L2 = stop_tickers del_ok net_id L1
      in if use_count = 1 then Loop_dtor del_ok L2 else L2)"

section \<open>message\<close>

text \<open>
  A \<^verbatim>\<open>bstring\<close> is the address of its first byte and its bytes; a
  \<^verbatim>\<open>std::string_view\<close> is a pointer and a size. Addresses and sizes are 64-bit and
  pointer arithmetic wraps. A default-constructed view is \<open>null_view\<close>.
\<close>

type_synonym addr = "64 word"

record bstring =
  ptr :: addr
  contents :: "char list"

record string_view =
  sv_data :: addr
  sv_size :: addr

definition null_view :: string_view where
  "null_view = \<lparr>sv_data = 0, sv_size = 0\<rparr>"

record message =
  data :: bstring
  req_type :: string_view
  req_id :: int
  ep :: string_view
  req_body :: string_view
  return_sender :: nat
  cid :: nat
  timed_out :: bool

definition get_sv_pos :: "bstring \<Rightarrow> string_view \<Rightarrow> addr \<times> addr" where
  "get_sv_pos source view = (sv_data view - ptr source, sv_size view)"

definition fixup_view :: "bstring \<Rightarrow> addr \<times> addr \<Rightarrow> string_view" where
  "fixup_view new_source off_len =
     \<lparr>sv_data = ptr new_source + fst off_len, sv_size = snd off_len\<rparr>"

text \<open>
  The destination of an assignment is the source itself (\<^verbatim>\<open>this == &m\<close>) or another
  object. \<open>new_ptr\<close> is where the destination's \<^verbatim>\<open>data\<close> has its bytes after
  \<^verbatim>\<open>data = std::move(m.data)\<close> or \<^verbatim>\<open>data = m.data\<close>: the allocator and the
  string implementation decide it. The two assignment operators differ only in
  \<^verbatim>\<open>std::move\<close>, so the destination they produce is the same function of the source;
  the moved-from source is not returned. \<^verbatim>\<open>timed_out\<close> is not assigned.
\<close>

datatype target = Same_object | Other message

definition assign :: "addr \<Rightarrow> target \<Rightarrow> message \<Rightarrow> message" where
  "assign new_ptr tgt m =
     (case tgt of
        Same_object \<Rightarrow> m
      | Other this \<Rightarrow>
          (let type_pos = get_sv_pos (data m) (req_type m);
               ep_pos = get_sv_pos (data m) (ep m);
               body_pos = get_sv_pos (data m) (req_body m);
               d = \<lparr>ptr = new_ptr, contents = contents (data m)\<rparr>
           in this\<lparr>req_id := req_id m, return_sender := return_sender m, cid := cid m,
                   data := d,
                   req_type := fixup_view d type_pos,
                   ep := fixup_view d ep_pos,
                   req_body := fixup_view d body_pos\<rparr>))"

definition move_assign :: "addr \<Rightarrow> target \<Rightarrow> message \<Rightarrow> message" where
  "move_assign new_ptr tgt m = assign new_ptr tgt m"

definition copy_assign :: "addr \<Rightarrow> target \<Rightarrow> message \<Rightarrow> message" where
  "copy_assign new_ptr tgt m = assign new_ptr tgt m"

text \<open>
  The constructors run the assignment on the object under construction, \<open>this0\<close>,
  which is never the source.
\<close>

definition move_ctor :: "addr \<Rightarrow> message \<Rightarrow> message \<Rightarrow> message" where
  "move_ctor new_ptr this0 m = move_assign new_ptr (Other this0) m"

definition copy_ctor :: "addr \<Rightarrow> message \<Rightarrow> message \<Rightarrow> message" where
  "copy_ctor new_ptr this0 m = copy_assign new_ptr (Other this0) m"

text \<open>
  What a view means relative to a buffer: its offset from the buffer's first byte, the
  bytes it denotes, and whether it lies inside the buffer.
\<close>

definition sv_offset :: "bstring \<Rightarrow> string_view \<Rightarrow> addr" where
  "sv_offset b v = sv_data v - ptr b"

definition sv_bytes :: "bstring \<Rightarrow> string_view \<Rightarrow> char list" where
  "sv_bytes b v = take (unat (sv_size v)) (drop (unat (sv_offset b v)) (contents b))"

definition sv_inside :: "bstring \<Rightarrow> string_view \<Rightarrow> bool" where
  "sv_inside b v = (unat (sv_offset b v) + unat (sv_size v) \<le> length (contents b))"

definition same_view :: "message \<Rightarrow> string_view \<Rightarrow> message \<Rightarrow> string_view \<Rightarrow> bool" where
  "same_view d vd m vm =
     (sv_offset (data d) vd = sv_offset (data m) vm \<and> sv_size vd = sv_size vm
      \<and> sv_bytes (data d) vd = sv_bytes (data m) vm
      \<and> sv_inside (data d) vd = sv_inside (data m) vm)"

definition endpoint_str :: "message \<Rightarrow> string" where
  "endpoint_str m = sv_bytes (data m) (ep m)"

section \<open>BTRequestStream\<close>

text \<open>
  btstream.hpp is not among the sources. From it the model needs the constants
  \<^verbatim>\<open>MAX_REQ_LEN\<close>, \<^verbatim>\<open>MAX_REQ_LEN_ENCODED\<close> and
  \<^verbatim>\<open>BPARSER_ERROR_EXCEPTION\<close>, which are fields of the configuration
  \<open>bt_config\<close>, and the members of \<^verbatim>\<open>sent_request\<close> and of the stream.
  A request id is an \<^verbatim>\<open>int64_t\<close> that is only compared, so it is an integer.
\<close>

record sent_request =
  sr_req_id :: int
  sr_expiry :: int
  cb :: callback

text \<open>
  Modelled from the spec: \<^verbatim>\<open>sent_request::is_expired\<close> is declared in
  btstream.hpp, which is missing; the spec says the sweep fails the entries "whose
  deadline has passed".
\<close>

definition is_expired :: "sent_request \<Rightarrow> int \<Rightarrow> bool" where
  "is_expired sr now = (sr_expiry sr < now)"

text \<open>
  A callback is run on a received message or, by the timeout sweep, on the message made
  by \<^verbatim>\<open>to_timeout()\<close> from the request. \<open>calls\<close> records the callbacks run,
  in order, and \<open>handled\<close> the messages given to \<^verbatim>\<open>handle_input\<close> (the code
  writes a trace line for each).
\<close>

datatype cb_arg = Msg message | Timeout sent_request

datatype call = Invoke callback cb_arg

datatype exn = Invalid_argument string | Bt_deserialize_invalid | Undefined_behaviour

record bt_stream =
  sent_reqs :: "sent_request list"
  func_map :: "string \<rightharpoonup> callback"
  buf :: string
  size_buf :: string
  current_len :: nat
  is_closing :: bool
  close_code :: "nat option"
  calls :: "call list"
  handled :: "message list"

text \<open>
  \<open>decode\<close> is the constructor \<^verbatim>\<open>message(BTRequestStream&, bstring, bool)\<close>:
  it runs the bencode consumer of the external library oxenc over the buffer and
  throws when the buffer is not a list of the expected shape (\<open>None\<close>).
\<close>

record bt_config =
  MAX_REQ_LEN :: nat
  MAX_REQ_LEN_ENCODED :: nat
  BPARSER_ERROR_EXCEPTION :: nat
  decode :: "string \<Rightarrow> message option"

subsection \<open>handle\_input\<close>

text \<open>
  \<^verbatim>\<open>std::lower_bound\<close> with the comparator
  \<^verbatim>\<open>sr->req_id < rid\<close>: the bisection of the standard library, from position 0
  over the whole list. Iterators are positions; \<^verbatim>\<open>end()\<close> is the length.
\<close>

function lower_bound_loop :: "sent_request list \<Rightarrow> int \<Rightarrow> nat \<Rightarrow> nat \<Rightarrow> nat" where
  "lower_bound_loop xs rid first len =
     (if len = 0 then first
      else (let half = len div 2; middle = first + half
            in if sr_req_id (xs ! middle) < rid
               then lower_bound_loop xs rid (middle + 1) (len - half - 1)
               else lower_bound_loop xs rid first half))"
  by pat_completeness auto
termination
  by (relation "measure (\<lambda>(xs, rid, first, len). len)") auto

definition lower_bound :: "sent_request list \<Rightarrow> int \<Rightarrow> nat" where
  "lower_bound xs rid = lower_bound_loop xs rid 0 (length xs)"

definition erase :: "nat \<Rightarrow> 'a list \<Rightarrow> 'a list" where
  "erase i xs = take i xs @ drop (Suc i) xs"

definition handle_input :: "message \<Rightarrow> bt_stream \<Rightarrow> bt_stream" where
  "handle_input msg st0 =
     (let st = st0\<lparr>handled := handled st0 @ [msg]\<rparr>;
          ty = sv_bytes (data msg) (req_type msg);
          itr = lower_bound (sent_reqs st) (req_id msg)
      in if (ty = ''R'' \<or> ty = ''E'') \<and> itr \<noteq> length (sent_reqs st)
         then st\<lparr>calls := calls st @ [Invoke (cb (sent_reqs st ! itr)) (Msg msg)],
                 sent_reqs := erase itr (sent_reqs st)\<rparr>
         else (case func_map st (endpoint_str msg) of
                 Some h \<Rightarrow> st\<lparr>calls := calls st @ [Invoke h (Msg msg)]\<rparr>
               | None \<Rightarrow> st))"

subsection \<open>check\_timeouts\<close>

text \<open>
  A \<^verbatim>\<open>do { ... } while (not sent_reqs.empty())\<close> loop: the body runs before the
  test, and starts with \<^verbatim>\<open>sent_reqs.front()\<close>, which is undefined on an empty
  container.
\<close>

fun check_timeouts_loop :: "int \<Rightarrow> sent_request list \<Rightarrow> call list \<Rightarrow> exn + sent_request list \<times> call list" where
  "check_timeouts_loop now [] cs = Inl Undefined_behaviour"
| "check_timeouts_loop now (front # rest) cs =
     (if is_expired front now
      then (let cs' = cs @ [Invoke (cb front) (Timeout front)]
            in if rest \<noteq> [] then check_timeouts_loop now rest cs' else Inr (rest, cs'))
      else Inr (front # rest, cs))"

definition check_timeouts :: "int \<Rightarrow> bt_stream \<Rightarrow> exn + bt_stream" where
  "check_timeouts now st =
     (case check_timeouts_loop now (sent_reqs st) (calls st) of
        Inl e \<Rightarrow> Inl e
      | Inr (reqs, cs) \<Rightarrow> Inr (st\<lparr>sent_reqs := reqs, calls := cs\<rparr>))"

subsection \<open>parse\_length\<close>

text \<open>
  \<^verbatim>\<open>std::from_chars\<close> into the \<^verbatim>\<open>size_t\<close> \<^verbatim>\<open>current_len\<close> (64 bits):
  it reads the longest run of decimal digits at the start, fails with
  \<^verbatim>\<open>invalid_argument\<close> when there is none and with
  \<^verbatim>\<open>result_out_of_range\<close> when the number does not fit, and leaves the
  variable alone when it fails. \<open>None\<close> of \<open>find_first_of\<close> is \<^verbatim>\<open>npos\<close>.
\<close>

fun find_first_of :: "string \<Rightarrow> char \<Rightarrow> nat option" where
  "find_first_of [] c = None"
| "find_first_of (x # xs) c = (if x = c then Some 0 else map_option Suc (find_first_of xs c))"

definition is_digit :: "char \<Rightarrow> bool" where
  "is_digit c = (48 \<le> (of_char c :: nat) \<and> (of_char c :: nat) \<le> 57)"

definition dec_value :: "string \<Rightarrow> nat" where
  "dec_value ds = foldl (\<lambda>a c. 10 * a + (of_char c - 48)) 0 ds"

datatype errc = invalid_argument | result_out_of_range

definition from_chars :: "string \<Rightarrow> errc + nat" where
  "from_chars s =
     (let ds = takeWhile is_digit s
      in if ds = [] then Inl invalid_argument
         else if 2 ^ 64 \<le> dec_value ds then Inl result_out_of_range
         else Inr (dec_value ds))"

text \<open>
  Modelled from the spec: \<^verbatim>\<open>Stream::close\<close> is not among the sources; the spec
  says the stream is closed with the given application error code.
\<close>

definition close :: "nat \<Rightarrow> bt_stream \<Rightarrow> bt_stream" where
  "close app_code st = st\<lparr>is_closing := True, close_code := Some app_code\<rparr>"

definition parse_length :: "bt_config \<Rightarrow> string \<Rightarrow> bt_stream \<Rightarrow> (exn + nat) \<times> bt_stream" where
  "parse_length cfg req st =
     (case find_first_of req CHR '':'' of
        None \<Rightarrow>
          if MAX_REQ_LEN_ENCODED cfg \<le> length req
          then (Inl (Invalid_argument ''Invalid incoming request; invalid encoding or request too large''), st)
          else (Inr 0, st)
      | Some pos \<Rightarrow>
          (case from_chars (take pos req) of
             Inl ec \<Rightarrow>
               (Inl (Invalid_argument ''Invalid incoming request encoding!''),
                close (BPARSER_ERROR_EXCEPTION cfg) st)
           | Inr v \<Rightarrow>
               (let st1 = st\<lparr>current_len := v\<rparr>
                in if v = 0
                   then (Inl (Invalid_argument ''Invalid empty bt request!''),
                         close (BPARSER_ERROR_EXCEPTION cfg) st1)
                   else if MAX_REQ_LEN cfg < v
                   then (Inl (Invalid_argument ''Request exceeds maximum size!''),
                         close (BPARSER_ERROR_EXCEPTION cfg) st1)
                   else (Inr (pos + 1), st1))))"

subsection \<open>process\_incoming and receive\<close>

text \<open>
  One turn of the \<^verbatim>\<open>while (not req.empty())\<close> loop either returns (with the
  exception thrown, if any) or goes on with the rest of \<^verbatim>\<open>req\<close>. The turn is the
  length part (when \<^verbatim>\<open>current_len == 0\<close>) followed by the body part.
  \<^verbatim>\<open>remove_prefix(consumed - prev_len)\<close> is undefined when the unsigned
  subtraction wraps. \<^verbatim>\<open>std::move(buf)\<close> leaves \<^verbatim>\<open>buf\<close> empty.
\<close>

datatype flow = Returned "exn option" bt_stream | Continue bt_stream string

definition length_state :: "bt_config \<Rightarrow> string \<Rightarrow> bt_stream \<Rightarrow> flow" where
  "length_state cfg req st =
     (if size_buf st \<noteq> [] then
        (let prev_len = length (size_buf st);
             st1 = st\<lparr>size_buf := size_buf st @ take (MAX_REQ_LEN_ENCODED cfg) req\<rparr>
         in case parse_length cfg (size_buf st1) st1 of
              (Inl e, st2) \<Rightarrow> Returned (Some e) st2
            | (Inr consumed, st2) \<Rightarrow>
                if consumed = 0 then Returned None st2
                else if consumed < prev_len
                then Returned (Some Undefined_behaviour) (st2\<lparr>size_buf := []\<rparr>)
                else Continue (st2\<lparr>size_buf := []\<rparr>) (drop (consumed - prev_len) req))
      else
        (case parse_length cfg req st of
           (Inl e, st2) \<Rightarrow> Returned (Some e) st2
         | (Inr consumed, st2) \<Rightarrow>
             if consumed = 0 then Returned None (st2\<lparr>size_buf := size_buf st2 @ req\<rparr>)
             else Continue st2 (drop consumed req)))"

definition body_state :: "bt_config \<Rightarrow> string \<Rightarrow> bt_stream \<Rightarrow> flow" where
  "body_state cfg req st =
     (if current_len st \<le> length req + length (buf st) then
        (let need = current_len st - length (buf st);
             st1 = (if length (buf st) < current_len st
                    then st\<lparr>buf := buf st @ take need req\<rparr> else st);
             req1 = (if length (buf st) < current_len st then drop need req else req)
         in case decode cfg (buf st1) of
              None \<Rightarrow> Returned (Some Bt_deserialize_invalid) (st1\<lparr>buf := []\<rparr>)
            | Some msg \<Rightarrow> Continue ((handle_input msg (st1\<lparr>buf := []\<rparr>))\<lparr>current_len := 0\<rparr>) req1)
      else Returned None (st\<lparr>buf := buf st @ req\<rparr>))"

definition process_incoming_iter :: "bt_config \<Rightarrow> string \<Rightarrow> bt_stream \<Rightarrow> flow" where
  "process_incoming_iter cfg req st =
     (if current_len st = 0 then
        (case length_state cfg req st of
           Returned e st' \<Rightarrow> Returned e st'
         | Continue st' req' \<Rightarrow> body_state cfg req' st')
      else body_state cfg req st)"

lemma handle_input_buf: "buf (handle_input msg st) = buf st"
  by (simp add: handle_input_def Let_def split: option.splits)

lemma parse_length_ok:
  "parse_length cfg req st = (Inr n, st') \<Longrightarrow>
     buf st' = buf st \<and> (0 < n \<longrightarrow> 0 < current_len st')"
  by (auto simp: parse_length_def Let_def split: option.splits sum.splits if_splits)

lemma length_state_Continue:
  "length_state cfg req st = Continue st' req' \<Longrightarrow>
     length req' \<le> length req \<and> buf st' = buf st \<and> 0 < current_len st'
     \<and> (size_buf st = [] \<longrightarrow> length req' < length req \<or> req = [])"
  unfolding length_state_def Let_def
  by (auto split: if_splits prod.splits sum.splits dest!: parse_length_ok)

lemma body_state_Continue:
  "body_state cfg req st = Continue st' req' \<Longrightarrow> 0 < current_len st \<Longrightarrow>
     buf st' = [] \<and> length req' \<le> length req \<and> (buf st = [] \<longrightarrow> length req' < length req)"
  unfolding body_state_def Let_def
  by (auto simp: handle_input_buf split: if_splits option.splits)

lemma process_incoming_iter_decreases:
  assumes "process_incoming_iter cfg req st = Continue st' req'"
  shows "length req' + (if buf st' = [] then 0 else 1) < length req + (if buf st = [] then 0 else 1)"
proof (cases "current_len st = 0")
  case True
  with assms obtain st1 req1 where l: "length_state cfg req st = Continue st1 req1"
    and b: "body_state cfg req1 st1 = Continue st' req'"
    by (auto simp: process_incoming_iter_def split: flow.splits)
  from length_state_Continue [OF l] body_state_Continue [OF b] show ?thesis
    by (auto split: if_splits)
next
  case False
  with assms have b: "body_state cfg req st = Continue st' req'"
    by (simp add: process_incoming_iter_def)
  from body_state_Continue [OF b] False show ?thesis
    by (auto split: if_splits)
qed

function process_incoming :: "bt_config \<Rightarrow> string \<Rightarrow> bt_stream \<Rightarrow> exn option \<times> bt_stream" where
  "process_incoming cfg req st =
     (if req = [] then (None, st)
      else (case process_incoming_iter cfg req st of
              Returned e st' \<Rightarrow> (e, st')
            | Continue st' req' \<Rightarrow> process_incoming cfg req' st'))"
  by pat_completeness auto
termination
  by (relation "measure (\<lambda>(cfg, req, st). length req + (if buf st = [] then 0 else 1))")
     (auto dest: process_incoming_iter_decreases)

declare process_incoming.simps [simp del]

text \<open>
  \<^verbatim>\<open>receive\<close> catches every \<^verbatim>\<open>std::exception\<close> and closes the stream.
  Undefined behaviour is not an exception and is not caught.
\<close>

definition receive :: "bt_config \<Rightarrow> string \<Rightarrow> bt_stream \<Rightarrow> exn + bt_stream" where
  "receive cfg dat st =
     (if is_closing st then Inr st
      else (case process_incoming cfg dat st of
              (None, st') \<Rightarrow> Inr st'
            | (Some Undefined_behaviour, st') \<Rightarrow> Inl Undefined_behaviour
            | (Some e, st') \<Rightarrow> Inr (close (BPARSER_ERROR_EXCEPTION cfg) st')))"

subsection \<open>Framed messages on the wire\<close>

text \<open>
  A framed message is its length prefix (the decimal digits before the colon) and its
  body; on the wire it is the digits, a colon and the body. A frame is valid for a
  configuration when the prefix is a non-empty run of decimal digits shorter than
  \<^verbatim>\<open>MAX_REQ_LEN_ENCODED\<close> (so that the prefix and its colon fit in the cap) whose
  value is the length of the body, the body is not empty, not longer than
  \<^verbatim>\<open>MAX_REQ_LEN\<close>, and the message constructor accepts it.
\<close>

type_synonym frame = "string \<times> string"

definition wire_frame :: "frame \<Rightarrow> string" where
  "wire_frame fr = fst fr @ CHR '':'' # snd fr"

definition wire :: "frame list \<Rightarrow> string" where
  "wire fs = concat (map wire_frame fs)"

definition valid_frame :: "bt_config \<Rightarrow> frame \<Rightarrow> bool" where
  "valid_frame cfg fr =
     (fst fr \<noteq> [] \<and> list_all is_digit (fst fr)
      \<and> length (fst fr) < MAX_REQ_LEN_ENCODED cfg
      \<and> dec_value (fst fr) = length (snd fr)
      \<and> 0 < length (snd fr) \<and> length (snd fr) \<le> MAX_REQ_LEN cfg
      \<and> length (snd fr) < 2 ^ 64
      \<and> decode cfg (snd fr) \<noteq> None)"

text \<open>Calling \<^verbatim>\<open>process_incoming\<close> on one chunk after the other, until one throws.\<close>

fun feed :: "bt_config \<Rightarrow> string list \<Rightarrow> bt_stream \<Rightarrow> exn option \<times> bt_stream" where
  "feed cfg [] st = (None, st)"
| "feed cfg (c # cs) st =
     (case process_incoming cfg c st of
        (None, st') \<Rightarrow> feed cfg cs st'
      | (Some e, st') \<Rightarrow> (Some e, st'))"

text \<open>The parser is between two messages.\<close>

definition parser_idle :: "bt_stream \<Rightarrow> bool" where
  "parser_idle st = (current_len st = 0 \<and> size_buf st = [] \<and> buf st = [])"

text \<open>The frames that lie entirely within the first \<open>n\<close> bytes of the wire.\<close>

fun frames_within :: "frame list \<Rightarrow> nat \<Rightarrow> frame list" where
  "frames_within [] n = []"
| "frames_within (fr # fs) n =
     (if length (wire_frame fr) \<le> n
      then fr # frames_within fs (n - length (wire_frame fr)) else [])"

text \<open>
  The state the parser is in after the first \<open>n\<close> bytes of a sequence of frames:
  the frames that are complete have been handled, and of the frame under way either a
  part of the length prefix is in \<^verbatim>\<open>size_buf\<close> or the length is known and a part
  of the body is in \<^verbatim>\<open>buf\<close>.
\<close>

definition with_parser :: "nat \<Rightarrow> string \<Rightarrow> string \<Rightarrow> bt_stream \<Rightarrow> bt_stream" where
  "with_parser l sb b st = st\<lparr>current_len := l, size_buf := sb, buf := b\<rparr>"

definition part_state :: "frame \<Rightarrow> nat \<Rightarrow> bt_stream \<Rightarrow> bt_stream" where
  "part_state fr n st =
     (if n \<le> length (fst fr) then with_parser 0 (take n (fst fr)) [] st
      else with_parser (length (snd fr)) [] (take (n - length (fst fr) - 1) (snd fr)) st)"

fun state_at :: "bt_config \<Rightarrow> frame list \<Rightarrow> nat \<Rightarrow> bt_stream \<Rightarrow> bt_stream" where
  "state_at cfg [] n st = with_parser 0 [] [] st"
| "state_at cfg (fr # fs) n st =
     (if length (wire_frame fr) \<le> n
      then state_at cfg fs (n - length (wire_frame fr))
             (handle_input (the (decode cfg (snd fr))) st)
      else part_state fr n st)"

section \<open>Example values\<close>

text \<open>
  The Response "l1:Ri3e0:e" (request id 3, empty body) in a buffer at address 4096;
  its \<^verbatim>\<open>ep\<close> was never assigned.
\<close>

definition example_response :: message where
  "example_response =
     \<lparr>data = \<lparr>ptr = 4096, contents = ''l1:Ri3e0:e''\<rparr>,
      req_type = \<lparr>sv_data = 4099, sv_size = 1\<rparr>, req_id = 3, ep = null_view,
      req_body = \<lparr>sv_data = 4105, sv_size = 0\<rparr>,
      return_sender = 0, cid = 0, timed_out = False\<rparr>"

text \<open>
  A Loop with one ticker of the Network with id 1, one of the Network with id 2 and one
  of the Loop itself, all running.
\<close>

definition example_loop_ops :: "loop_op list" where
  "example_loop_ops =
     [Make_handler 1, Set_callback 0 7, Ticker_start 0 True,
      Make_handler 2, Set_callback 1 8, Ticker_start 1 True,
      Make_handler 0, Set_callback 2 9, Ticker_start 2 True]"

definition example_loop :: loop where
  "example_loop = foldl (loop_step (\<lambda>t. True)) new_loop example_loop_ops"

text \<open>A stream with one request in flight, with id 5 and completion callback 11.\<close>

definition example_stream :: bt_stream where
  "example_stream =
     \<lparr>sent_reqs = [\<lparr>sr_req_id = 5, sr_expiry = 100, cb = 11\<rparr>],
      func_map = Map.empty, buf = [], size_buf = [], current_len = 0,
      is_closing = False, close_code = None, calls = [], handled = []\<rparr>"

text \<open>
  An example configuration (the values of the constants are not in the sources), with
  a message constructor that accepts every buffer and keeps it unparsed, a new stream,
  and two frames.
\<close>

definition raw_message :: "string \<Rightarrow> message" where
  "raw_message s =
     \<lparr>data = \<lparr>ptr = 4096, contents = s\<rparr>, req_type = null_view, req_id = 0,
      ep = null_view, req_body = null_view, return_sender = 0, cid = 0, timed_out = False\<rparr>"

definition example_config :: bt_config where
  "example_config =
     \<lparr>MAX_REQ_LEN = 10485760, MAX_REQ_LEN_ENCODED = 10, BPARSER_ERROR_EXCEPTION = 1152921504606847045,
      decode = (\<lambda>s. Some (raw_message s))\<rparr>"

definition new_stream :: bt_stream where
  "new_stream =
     \<lparr>sent_reqs = [], func_map = Map.empty, buf = [], size_buf = [], current_len = 0,
      is_closing = False, close_code = None, calls = [], handled = []\<rparr>"

definition example_frames :: "frame list" where
  "example_frames = [(''16'', ''l1:Ci42e3:end0:e''), (''10'', ''l1:Ri3e0:e'')]"

text \<open>
  The example configuration with the message constructor restricted to the buffer
  "l1:Ri3e0:e", for which it builds the Response above (type "R" at offset 3, request
  id 3, empty body, \<^verbatim>\<open>ep\<close> left alone).
\<close>

definition response_config :: bt_config where
  "response_config =
     example_config\<lparr>decode := (\<lambda>s. if s = ''l1:Ri3e0:e'' then Some example_response else None)\<rparr>"

chapter \<open>Properties\<close>

section \<open>Ticker\<close>

lemma run_calls_agree:
  "(case l of None \<Rightarrow> \<not> is_running t | Some c \<Rightarrow> is_running t = is_start c) \<Longrightarrow>
   run_calls cs t l = (t', l') \<Longrightarrow>
   (case l' of None \<Rightarrow> \<not> is_running t' | Some c \<Rightarrow> is_running t' = is_start c)"
proof (induction cs arbitrary: t l)
  case Nil
  then show ?case by auto
next
  case (Cons c cs)
  obtain r t1 where step: "do_call c t = (r, t1)"
    by (cases "do_call c t")
  have inv: "case (if r then Some c else l) of None \<Rightarrow> \<not> is_running t1
             | Some c \<Rightarrow> is_running t1 = is_start c"
    using step Cons.prems(1)
    by (cases c) (auto simp: start_def stop_def split: if_splits option.splits)
  from Cons.prems(2) step have "run_calls cs t1 (if r then Some c else l) = (t', l')"
    by simp
  from Cons.IH [OF inv this] show ?case .
qed

text \<open>
  Claim C5. With the timer operations succeeding: on a ticker that is not running,
  \<^verbatim>\<open>start(); start()\<close> returns true then false; on a running ticker,
  \<^verbatim>\<open>stop(); stop()\<close> returns true then false; so on a new ticker
  \<^verbatim>\<open>start(); start(); stop(); stop()\<close> returns true, false, true, false; and
  after any sequence of
  \<^verbatim>\<open>start\<close>/\<^verbatim>\<open>stop\<close> calls on a new ticker (whatever the timer operations
  return), \<^verbatim>\<open>is_running()\<close> is true exactly when the last call that returned true
  was a \<^verbatim>\<open>start\<close>.
\<close>

theorem ticker_start_stop:
  "(\<not> is_running t \<longrightarrow>
      fst (start True t) = True \<and> fst (start True (snd (start True t))) = False)
   \<and> (is_running t \<longrightarrow>
      fst (stop True t) = True \<and> fst (stop True (snd (stop True t))) = False)
   \<and> (fst (start True new_ticker) \<and> \<not> fst (start True (snd (start True new_ticker)))
      \<and> fst (stop True (snd (start True new_ticker)))
      \<and> \<not> fst (stop True (snd (stop True (snd (start True new_ticker))))))
   \<and> is_running (fst (run_calls cs new_ticker None))
        = (\<exists>c. snd (run_calls cs new_ticker None) = Some c \<and> is_start c)"
proof -
  obtain t' l' where r: "run_calls cs new_ticker None = (t', l')"
    by (cases "run_calls cs new_ticker None")
  have "case l' of None \<Rightarrow> \<not> is_running t' | Some c \<Rightarrow> is_running t' = is_start c"
    by (rule run_calls_agree [OF _ r]) (simp add: new_ticker_def)
  then have "is_running t' = (\<exists>c. l' = Some c \<and> is_start c)"
    by (cases l') auto
  with r show ?thesis
    by (simp add: start_def stop_def new_ticker_def)
qed

theorem ticker_start_stop_witness:
  "\<not> is_running new_ticker
   \<and> fst (start True new_ticker) = True
   \<and> fst (start True (snd (start True new_ticker))) = False
   \<and> is_running (snd (start True new_ticker))
   \<and> fst (stop True (snd (start True new_ticker))) = True
   \<and> fst (stop True (snd (stop True (snd (start True new_ticker))))) = False
   \<and> is_running (fst (run_calls [Start True, Start True, Stop True, Start True] new_ticker None))"
  using ticker_start_stop [of new_ticker "[Start True, Start True, Stop True, Start True]"]
    ticker_start_stop [of "snd (start True new_ticker)" "[]"]
  by (simp add: new_ticker_def start_def stop_def)

section \<open>The weak-bound ticker\<close>

lemma wb_run_cancelled:
  "\<not> owner_alive w \<Longrightarrow> \<not> ev_pending w \<Longrightarrow>
   user_calls (wb_run fd es w) = user_calls w \<and> ev_fires (wb_run fd es w) = ev_fires w"
proof (induction es arbitrary: w)
  case Nil
  then show ?case by simp
next
  case (Cons e es)
  have "\<not> owner_alive (wb_step fd e w)" "\<not> ev_pending (wb_step fd e w)"
    "user_calls (wb_step fd e w) = user_calls w" "ev_fires (wb_step fd e w) = ev_fires w"
    using Cons.prems by (cases e; simp)+
  with Cons.IH [of "wb_step fd e w"] show ?case by simp
qed

lemma wb_run_dropped:
  "\<not> owner_alive w \<Longrightarrow>
   user_calls (wb_run fd es w) = user_calls w \<and> ev_fires (wb_run fd es w) \<le> Suc (ev_fires w)"
proof (induction es arbitrary: w)
  case Nil
  then show ?case by simp
next
  case (Cons e es)
  show ?case
  proof (cases "e = Timer_fires \<and> ev_pending w")
    case True
    then have s: "\<not> owner_alive (wb_step fd e w)" "\<not> ev_pending (wb_step fd e w)"
      "user_calls (wb_step fd e w) = user_calls w"
      "ev_fires (wb_step fd e w) = Suc (ev_fires w)"
      using Cons.prems by (simp_all add: weak_task_def)
    from wb_run_cancelled [OF s(1,2), of fd es] s show ?thesis by simp
  next
    case False
    then have s: "\<not> owner_alive (wb_step fd e w)"
      "user_calls (wb_step fd e w) = user_calls w"
      "ev_fires (wb_step fd e w) = ev_fires w"
      using Cons.prems by (cases e; simp)+
    from Cons.IH [OF s(1)] s show ?thesis by simp
  qed
qed

text \<open>
  Claim C6. When the timer of a weak-bound ticker fires, the owner is locked first: if
  that succeeds the user callback runs once and the event stays pending; if it fails
  the user callback does not run and the ticker cancels itself (the handle is released,
  the event is no longer pending). From any moment at which the owner is gone, whatever
  happens next, the user callback never runs again and the timer fires at most once
  more.
\<close>

theorem weak_ticker_cancels:
  "(ev_pending w \<and> owner_alive w \<longrightarrow>
      user_calls (wb_step fd Timer_fires w) = Suc (user_calls w)
      \<and> ev_pending (wb_step fd Timer_fires w))
   \<and> (ev_pending w \<and> \<not> owner_alive w \<longrightarrow>
      user_calls (wb_step fd Timer_fires w) = user_calls w
      \<and> \<not> ev_pending (wb_step fd Timer_fires w) \<and> \<not> hndlr (wb_step fd Timer_fires w))
   \<and> (\<not> owner_alive (wb_run fd es1 (call_every_weak owner ok)) \<longrightarrow>
      user_calls (wb_run fd es2 (wb_run fd es1 (call_every_weak owner ok)))
        = user_calls (wb_run fd es1 (call_every_weak owner ok))
      \<and> ev_fires (wb_run fd es2 (wb_run fd es1 (call_every_weak owner ok)))
        \<le> Suc (ev_fires (wb_run fd es1 (call_every_weak owner ok))))"
  using wb_run_dropped [of "wb_run fd es1 (call_every_weak owner ok)" fd es2]
  by (simp add: weak_task_def)

theorem weak_ticker_cancels_witness:
  "ev_pending (call_every_weak True True) \<and> owner_alive (call_every_weak True True)
   \<and> user_calls (wb_step (\<lambda>n. False) Timer_fires (call_every_weak True True)) = 1
   \<and> ev_pending (wb_run (\<lambda>n. False) [Timer_fires, Owner_dropped] (call_every_weak True True))
   \<and> \<not> owner_alive (wb_run (\<lambda>n. False) [Timer_fires, Owner_dropped] (call_every_weak True True))
   \<and> \<not> ev_pending (wb_step (\<lambda>n. False) Timer_fires
         (wb_run (\<lambda>n. False) [Timer_fires, Owner_dropped] (call_every_weak True True)))
   \<and> user_calls (wb_run (\<lambda>n. False) [Timer_fires, Timer_fires, Timer_fires]
         (wb_run (\<lambda>n. False) [Timer_fires, Owner_dropped] (call_every_weak True True))) = 1
   \<and> ev_fires (wb_run (\<lambda>n. False) [Timer_fires, Timer_fires, Timer_fires]
         (wb_run (\<lambda>n. False) [Timer_fires, Owner_dropped] (call_every_weak True True))) = 2"
  using weak_ticker_cancels [of "call_every_weak True True" "\<lambda>n. False"
      "[Timer_fires, Owner_dropped]" True True "[Timer_fires, Timer_fires, Timer_fires]"]
    weak_ticker_cancels [of "wb_run (\<lambda>n. False) [Timer_fires, Owner_dropped]
      (call_every_weak True True)" "\<lambda>n. False" "[]" True True "[]"]
  by (simp add: call_every_weak_def start_def new_ticker_def weak_task_def)

section \<open>call\_later\<close>





section \<open>Caller ids\<close>

lemma construct_networks_nth:
  "k < n \<Longrightarrow> construct_networks n c ! k = c + of_nat (Suc k)"
proof (induction n arbitrary: c k)
  case 0
  then show ?case by simp
next
  case (Suc n)
  show ?case
  proof (cases k)
    case 0
    then show ?thesis by (simp add: Network_ctor_def)
  next
    case (Suc j)
    with Suc.prems have "j < n" by simp
    from Suc.IH [OF this, of "c + 1"] Suc show ?thesis
      by (simp add: Network_ctor_def add.assoc)
  qed
qed

lemma length_construct_networks: "length (construct_networks n c) = n"
  by (induction n arbitrary: c) (auto simp: Network_ctor_def)

lemma construct_networks_map:
  "construct_networks n c = map (\<lambda>k. c + of_nat (Suc k)) [0..<n]"
  by (rule nth_equalityI) (simp_all add: length_construct_networks construct_networks_nth)

text \<open>
  The first 65535 Networks of a process do get ids that differ from one another and
  from the Loop's own id.
\<close>

lemma first_ids_distinct:
  assumes "n \<le> 65535"
  shows "distinct (construct_networks n initial_next_net_id)
     \<and> loop_id \<notin> set (construct_networks n initial_next_net_id)"
proof -
  have u: "unat (of_nat (Suc k) :: caller_id_t) = Suc k" if "k < n" for k
    using that assms by (simp add: unat_of_nat del: of_nat_Suc)
  have "inj_on (\<lambda>k. (of_nat (Suc k) :: caller_id_t)) {0..<n}"
    by (rule inj_onI) (metis u atLeastLessThan_iff nat.inject)
  moreover have "(of_nat (Suc k) :: caller_id_t) \<noteq> 0" if "k < n" for k
    using u [OF that] by (metis nat.distinct(1) unat_0)
  ultimately show ?thesis
    by (auto simp: construct_networks_map initial_next_net_id_def loop_id_def distinct_map
             simp del: of_nat_Suc)
qed

text \<open>
  Claim C10 fails on the code: of 65537 Networks constructed one after the other, the
  one with index 65535 (the 65536th) is given the id 0, which is the Loop's own
  \<^verbatim>\<open>loop_id\<close>, and the next one is given the id of the first.
\<close>

theorem caller_id_wraps_to_loop_id:
  "construct_networks 65537 initial_next_net_id ! 65535 = loop_id
   \<and> construct_networks 65537 initial_next_net_id ! 65536
       = construct_networks 65537 initial_next_net_id ! 0"
  by (simp add: construct_networks_nth initial_next_net_id_def loop_id_def)

section \<open>Copying and moving a message\<close>

lemma same_view_assign:
  "same_view (assign p tgt m) (req_type (assign p tgt m)) m (req_type m)"
  "same_view (assign p tgt m) (ep (assign p tgt m)) m (ep m)"
  "same_view (assign p tgt m) (req_body (assign p tgt m)) m (req_body m)"
  by (cases tgt; simp add: same_view_def assign_def Let_def get_sv_pos_def fixup_view_def
        sv_offset_def sv_bytes_def sv_inside_def)+

text \<open>
  After a copy or move assignment (onto another object or onto itself) and after a copy
  or move construction, wherever the destination's buffer lies, each of the views
  \<^verbatim>\<open>req_type\<close>, \<^verbatim>\<open>ep\<close> and \<^verbatim>\<open>req_body\<close> of the destination has, relative
  to the destination's buffer, the offset, the size and the bytes that the source's
  view has relative to the source's buffer, and lies inside the destination's buffer
  exactly when the source's view lies inside the source's; the buffers hold the same
  bytes. So a view that was set from the source's buffer is rebased.
\<close>

lemma message_views_rebased:
  "d \<in> {move_assign p tgt m, copy_assign p tgt m, move_ctor p this0 m, copy_ctor p this0 m}
   \<Longrightarrow> contents (data d) = contents (data m)
     \<and> same_view d (req_type d) m (req_type m)
     \<and> same_view d (ep d) m (ep m)
     \<and> same_view d (req_body d) m (req_body m)"
proof -
  assume "d \<in> {move_assign p tgt m, copy_assign p tgt m, move_ctor p this0 m, copy_ctor p this0 m}"
  then obtain g where d: "d = assign p g m"
    by (auto simp: move_assign_def copy_assign_def move_ctor_def copy_ctor_def)
  have "contents (data (assign p g m)) = contents (data m)"
    by (cases g) (simp_all add: assign_def Let_def)
  with same_view_assign [of p g m] d show ?thesis
    by simp
qed

text \<open>
  A view that was never assigned is null. \<^verbatim>\<open>get_sv_pos\<close> subtracts the buffer's
  address from the null pointer all the same (an undefined pointer subtraction) and
  \<^verbatim>\<open>fixup_view\<close> adds the new buffer's address: in the destination the view is
  the difference of the two buffer addresses, with size 0.
\<close>

lemma assign_null_view:
  "v \<in> {req_type, ep, req_body} \<Longrightarrow> v m = null_view \<Longrightarrow>
     v (assign p (Other this0) m) = \<lparr>sv_data = p - ptr (data m), sv_size = 0\<rparr>"
  by (auto simp: assign_def Let_def get_sv_pos_def fixup_view_def null_view_def)

text \<open>
  Claim C9 fails on the code for a Response whose \<^verbatim>\<open>ep\<close> was never assigned.
  The example Response has its buffer at address 4096 and a null \<^verbatim>\<open>ep\<close>. Copied
  or moved, by a constructor or by an assignment, into a message whose buffer is at
  address 8192, the destination's \<^verbatim>\<open>ep\<close> is not null: it is the pointer 4096,
  which does not lie in the destination's buffer (it is the address of the source's
  buffer), while \<^verbatim>\<open>req_type\<close> and \<^verbatim>\<open>req_body\<close> do lie in it.
\<close>

theorem message_copy_unassigned_ep:
  "ep example_response = null_view
   \<and> ptr (data example_response) = 4096
   \<and> ptr (data (copy_ctor 8192 (raw_message []) example_response)) = 8192
   \<and> ep (copy_ctor 8192 (raw_message []) example_response) = \<lparr>sv_data = 4096, sv_size = 0\<rparr>
   \<and> ep (move_ctor 8192 (raw_message []) example_response) = \<lparr>sv_data = 4096, sv_size = 0\<rparr>
   \<and> ep (copy_assign 8192 (Other (raw_message [])) example_response)
        = \<lparr>sv_data = 4096, sv_size = 0\<rparr>
   \<and> ep (move_assign 8192 (Other (raw_message [])) example_response)
        = \<lparr>sv_data = 4096, sv_size = 0\<rparr>
   \<and> \<not> sv_inside (data (copy_ctor 8192 (raw_message []) example_response))
            (ep (copy_ctor 8192 (raw_message []) example_response))
   \<and> sv_inside (data (copy_ctor 8192 (raw_message []) example_response))
            (req_type (copy_ctor 8192 (raw_message []) example_response))
   \<and> sv_inside (data (copy_ctor 8192 (raw_message []) example_response))
            (req_body (copy_ctor 8192 (raw_message []) example_response))"
  by (simp add: copy_ctor_def move_ctor_def copy_assign_def move_assign_def assign_def Let_def
      get_sv_pos_def fixup_view_def example_response_def raw_message_def null_view_def
      sv_inside_def sv_offset_def)

section \<open>stop\_tickers\<close>

lemma stop_one_dead: "h t = None \<Longrightarrow> stop_one del_ok a h t = None"
  by (cases "a = t") (simp_all add: stop_one_def split: option.splits)

lemma fold_stop_one_dead:
  "h t = None \<Longrightarrow> fold (stop_one del_ok) list h t = None"
  by (induction list arbitrary: h) (simp_all add: stop_one_dead)

lemma fold_stop_one_other:
  "t \<notin> set list \<Longrightarrow> fold (stop_one del_ok) list h t = h t"
  by (induction list arbitrary: h) (auto simp: stop_one_def split: option.splits)

lemma fold_stop_one_in:
  "t \<in> set list \<Longrightarrow> h t = Some k \<Longrightarrow>
   \<exists>k'. fold (stop_one del_ok) list h t = Some k' \<and> f k' = None
        \<and> is_running k' = (is_running k \<and> \<not> del_ok t)"
proof (induction list arbitrary: h k)
  case Nil
  then show ?case by simp
next
  case (Cons a list)
  show ?case
  proof (cases "a = t")
    case True
    let ?k1 = "snd (stop (del_ok t) (k\<lparr>f := None\<rparr>))"
    have h1: "stop_one del_ok a h = h(t \<mapsto> ?k1)"
      using True Cons.prems(2) by (simp add: stop_one_def)
    have k1: "f ?k1 = None" "is_running ?k1 = (is_running k \<and> \<not> del_ok t)"
      by (auto simp: stop_def)
    show ?thesis
    proof (cases "t \<in> set list")
      case True
      have "(h(t \<mapsto> ?k1)) t = Some ?k1" by simp
      from Cons.IH [of "h(t \<mapsto> ?k1)" ?k1, OF True this] obtain k' where
        "fold (stop_one del_ok) list (h(t \<mapsto> ?k1)) t = Some k'" "f k' = None"
        "is_running k' = (is_running ?k1 \<and> \<not> del_ok t)"
        by blast
      with h1 k1 show ?thesis
        by simp
    next
      case False
      from fold_stop_one_other [OF False, of del_ok "h(t \<mapsto> ?k1)"] h1 k1 show ?thesis
        by simp
    qed
  next
    case False
    with Cons.prems have "t \<in> set list" by simp
    moreover have "stop_one del_ok a h t = Some k"
      using False Cons.prems(2) by (simp add: stop_one_def split: option.splits)
    ultimately show ?thesis
      using Cons.IH by simp
  qed
qed

lemma fold_entries:
  "fold (\<lambda>(i, list). fold g list) es h = fold g (concat (map snd es)) h"
  by (induction es arbitrary: h) (auto)

lemma map_of_push_back_at:
  "map_of (push_back_at c t es) i
     = (if i = c then Some ((case map_of es c of None \<Rightarrow> [] | Some l \<Rightarrow> l) @ [t])
        else map_of es i)"
  by (induction c t es rule: push_back_at.induct) auto

lemma keys_push_back_at:
  "map fst (push_back_at c t es) = (if c \<in> fst ` set es then map fst es else map fst es @ [c])"
  by (induction c t es rule: push_back_at.induct) (auto simp: image_iff)

lemma distinct_push_back_at:
  "distinct (map fst es) \<Longrightarrow> distinct (map fst (push_back_at c t es))"
  by (auto simp: keys_push_back_at)

lemma map_of_clear:
  "map_of (map (\<lambda>(i, list). (i, g list)) es) i = map_option g (map_of es i)"
  by (induction es) auto

lemma keys_clear: "map fst (map (\<lambda>(i, list). (i, g list)) es) = map fst es"
  by (induction es) auto

lemma registered_clear_old:
  "registered (clear_old_tickers L) i t \<Longrightarrow> registered L i t"
  by (auto simp: registered_def clear_old_tickers_def map_of_clear split: option.splits)

lemma registered_make_handler:
  "registered (snd (make_handler c L)) i t \<Longrightarrow>
     registered L i t \<or> (i = c \<and> t = next_handle L)"
  by (auto simp: registered_def make_handler_def Let_def clear_old_tickers_def
           map_of_push_back_at map_of_clear
           split: option.splits if_splits)

lemma next_handle_make_handler:
  "next_handle (snd (make_handler c L)) = Suc (next_handle L)"
  by (simp add: make_handler_def Let_def clear_old_tickers_def)

lemma keys_make_handler:
  "distinct (map fst (tickers L)) \<Longrightarrow> distinct (map fst (tickers (snd (make_handler c L))))"
proof -
  assume "distinct (map fst (tickers L))"
  then have "distinct (map fst (tickers (clear_old_tickers L)))"
    by (simp add: clear_old_tickers_def comp_def case_prod_beta)
  then show ?thesis
    by (simp add: make_handler_def Let_def distinct_push_back_at)
qed

lemma registry_ok_make_handler:
  assumes "registry_ok L"
  shows "registry_ok (snd (make_handler c L))"
  unfolding registry_ok_def
proof (intro conjI allI impI)
  show "distinct (map fst (tickers (snd (make_handler c L))))"
    using assms by (simp add: registry_ok_def keys_make_handler)
next
  fix i t
  assume "registered (snd (make_handler c L)) i t"
  from registered_make_handler [OF this] assms
  show "t < next_handle (snd (make_handler c L))"
    by (auto simp: registry_ok_def next_handle_make_handler less_Suc_eq)
next
  fix i j t
  assume "registered (snd (make_handler c L)) i t" "registered (snd (make_handler c L)) j t"
  from registered_make_handler [OF this(1)] registered_make_handler [OF this(2)] assms
  show "i = j"
    by (auto simp: registry_ok_def)
qed

lemma registry_ok_same:
  "tickers L' = tickers L \<Longrightarrow> next_handle L' = next_handle L \<Longrightarrow>
     registry_ok L \<Longrightarrow> registry_ok L'"
  by (simp add: registry_ok_def registered_def)

lemma registry_ok_step: "registry_ok L \<Longrightarrow> registry_ok (loop_step del_ok L op)"
proof (cases op)
  case (Make_handler i)
  assume "registry_ok L"
  then show ?thesis using Make_handler by (simp add: registry_ok_make_handler)
qed (auto elim!: registry_ok_same [rotated 2]
          simp: on_ticker_def stop_tickers_def split: option.splits)

lemma registry_ok_reachable: "registry_ok (foldl (loop_step del_ok) new_loop ops)"
proof (induction ops rule: rev_induct)
  case Nil
  show ?case by (simp add: registry_ok_def registered_def new_loop_def)
next
  case (snoc op ops)
  then show ?case by (simp add: registry_ok_step)
qed

lemma registered_entry:
  "registered L i t \<Longrightarrow> t \<in> set (concat (map snd (tickers L)))"
  by (auto simp: registered_def split: option.splits dest!: map_of_SomeD) force

lemma entry_registered:
  "distinct (map fst (tickers L)) \<Longrightarrow> t \<in> set (concat (map snd (tickers L))) \<Longrightarrow>
     \<exists>i. registered L i t"
  by (auto simp: registered_def split: option.splits) (metis map_of_eq_Some_iff option.simps(5))


text \<open>
  On every Loop reached from a new one by making, starting, stopping and destroying
  tickers and by stopping the tickers of caller ids, \<^verbatim>\<open>stop_tickers(id)\<close> leaves
  the registry as it is; every live ticker registered under \<open>id\<close> has its callback
  cleared and is stopped (it keeps running only if it was running and
  \<^verbatim>\<open>event_del\<close> failed); no destroyed ticker comes back; every ticker not
  registered under \<open>id\<close>, in particular every ticker registered under another caller
  id (the Loop's own id included), is unchanged.
\<close>

lemma stop_tickers_frame:
  assumes "L = foldl (loop_step del_ok) new_loop ops"
  shows "tickers (stop_tickers del_ok i L) = tickers L
    \<and> (registered L i t \<and> heap L t = Some k \<longrightarrow>
         (\<exists>k'. heap (stop_tickers del_ok i L) t = Some k' \<and> f k' = None
               \<and> is_running k' = (is_running k \<and> \<not> del_ok t)))
    \<and> (heap L t = None \<longrightarrow> heap (stop_tickers del_ok i L) t = None)
    \<and> (\<not> registered L i t \<longrightarrow> heap (stop_tickers del_ok i L) t = heap L t)
    \<and> (j \<noteq> i \<and> registered L j t \<longrightarrow> heap (stop_tickers del_ok i L) t = heap L t)"
proof -
  have ok: "registry_ok L"
    using assms by (simp add: registry_ok_reachable)
  have a: "tickers (stop_tickers del_ok i L) = tickers L"
    by (simp add: stop_tickers_def split: option.splits)
  have b: "\<exists>k'. heap (stop_tickers del_ok i L) t = Some k' \<and> f k' = None
               \<and> is_running k' = (is_running k \<and> \<not> del_ok t)"
    if "registered L i t" "heap L t = Some k"
    using that fold_stop_one_in [of t _ "heap L" k del_ok]
    by (auto simp: registered_def stop_tickers_def split: option.splits)
  have c: "heap (stop_tickers del_ok i L) t = None" if "heap L t = None"
    using that by (simp add: stop_tickers_def fold_stop_one_dead split: option.splits)
  have d: "heap (stop_tickers del_ok i L) t = heap L t" if "\<not> registered L i t"
    using that by (simp add: registered_def stop_tickers_def fold_stop_one_other split: option.splits)
  have e: "\<not> registered L i t" if "j \<noteq> i" "registered L j t"
    using that ok by (auto simp: registry_ok_def)
  from a b c d e show ?thesis
    by blast
qed

text \<open>
  The destructor of a Network that shares the Loop with another owner does to the
  tickers what \<^verbatim>\<open>stop_tickers(net_id)\<close> does: the live tickers registered under
  its id are stopped and cleared, and the tickers registered under any other id are
  unchanged. The destructor of the Network that holds the last reference destroys the
  Loop, which stops and clears every live ticker of the registry. A ticker that is not
  in the registry is unchanged either way.
\<close>

lemma heap_Loop_dtor:
  "heap (Loop_dtor del_ok L) = fold (stop_one del_ok) (concat (map snd (tickers L))) (heap L)"
  by (simp add: Loop_dtor_def stop_thread_def fold_entries)

lemma Network_dtor_shared:
  "n \<noteq> 1 \<Longrightarrow> Network_dtor del_ok n i L = stop_tickers del_ok i L"
  by (simp add: Network_dtor_def)

lemma Network_dtor_last:
  "n = 1 \<Longrightarrow> heap (Network_dtor del_ok n i L)
     = fold (stop_one del_ok) (concat (map snd (tickers L))) (heap (stop_tickers del_ok i L))"
  by (simp add: Network_dtor_def heap_Loop_dtor stop_tickers_def stop_thread_def
           split: option.splits)

lemma Network_dtor_frame:
  assumes "L = foldl (loop_step del_ok) new_loop ops"
  shows "(n \<noteq> 1 \<and> registered L i t \<and> heap L t = Some k \<longrightarrow>
           (\<exists>k'. heap (Network_dtor del_ok n i L) t = Some k' \<and> f k' = None
                 \<and> is_running k' = (is_running k \<and> \<not> del_ok t)))
    \<and> (n \<noteq> 1 \<and> \<not> registered L i t \<longrightarrow> heap (Network_dtor del_ok n i L) t = heap L t)
    \<and> (n \<noteq> 1 \<and> j \<noteq> i \<and> registered L j t \<longrightarrow> heap (Network_dtor del_ok n i L) t = heap L t)
    \<and> (n = 1 \<and> registered L j t \<and> heap L t = Some k \<longrightarrow>
           (\<exists>k'. heap (Network_dtor del_ok n i L) t = Some k' \<and> f k' = None
                 \<and> is_running k' = (is_running k \<and> \<not> del_ok t)))
    \<and> ((\<forall>j. \<not> registered L j t) \<longrightarrow> heap (Network_dtor del_ok n i L) t = heap L t)
    \<and> (heap L t = None \<longrightarrow> heap (Network_dtor del_ok n i L) t = None)"
proof -
  note s = stop_tickers_frame [OF assms]
  have ok: "registry_ok L"
    using assms by (simp add: registry_ok_reachable)
  have a: "\<exists>k'. heap (Network_dtor del_ok n i L) t = Some k' \<and> f k' = None
                 \<and> is_running k' = (is_running k \<and> \<not> del_ok t)"
    if "n \<noteq> 1" "registered L i t" "heap L t = Some k"
    using that s [of i t k i] by (simp add: Network_dtor_shared)
  have b: "heap (Network_dtor del_ok n i L) t = heap L t" if "n \<noteq> 1" "\<not> registered L i t"
    using that s [of i t k i] by (simp add: Network_dtor_shared)
  have b': "heap (Network_dtor del_ok n i L) t = heap L t"
    if "n \<noteq> 1" "j \<noteq> i" "registered L j t"
    using that s [of i t k j] by (simp add: Network_dtor_shared)
  have c: "\<exists>k'. heap (Network_dtor del_ok n i L) t = Some k' \<and> f k' = None
                 \<and> is_running k' = (is_running k \<and> \<not> del_ok t)"
    if n: "n = 1" and r: "registered L j t" and h: "heap L t = Some k"
  proof -
    have m: "t \<in> set (concat (map snd (tickers L)))"
      by (rule registered_entry [OF r])
    obtain k2 where k2: "heap (stop_tickers del_ok i L) t = Some k2"
      "is_running k2 \<and> \<not> del_ok t \<longleftrightarrow> is_running k \<and> \<not> del_ok t"
    proof (cases "registered L i t")
      case True
      with s [of i t k i] h that show ?thesis by auto
    next
      case False
      with s [of i t k i] h that show ?thesis by auto
    qed
    from fold_stop_one_in [of t "concat (map snd (tickers L))" "heap (stop_tickers del_ok i L)"
        k2 del_ok, OF m k2(1)] k2(2) show ?thesis
      by (auto simp: Network_dtor_last [OF n])
  qed
  have d: "heap (Network_dtor del_ok n i L) t = heap L t" if "\<forall>j. \<not> registered L j t"
  proof (cases "n = 1")
    case True
    have "t \<notin> set (concat (map snd (tickers L)))"
      using entry_registered [of L t] ok that by (auto simp: registry_ok_def)
    from fold_stop_one_other [OF this, of del_ok "heap (stop_tickers del_ok i L)"]
      that s [of i t k i] show ?thesis
      by (simp add: Network_dtor_last [OF True])
  next
    case False
    with that s [of i t k i] show ?thesis by (simp add: Network_dtor_shared)
  qed
  have e: "heap (Network_dtor del_ok n i L) t = None" if "heap L t = None"
  proof (cases "n = 1")
    case True
    from that s [of i t k i] have "heap (stop_tickers del_ok i L) t = None" by simp
    from fold_stop_one_dead [of "heap (stop_tickers del_ok i L)" t del_ok
        "concat (map snd (tickers L))", OF this] show ?thesis
      by (simp add: Network_dtor_last [OF True])
  next
    case False
    with that s [of i t k i] show ?thesis by (simp add: Network_dtor_shared)
  qed
  from a b b' c d e show ?thesis by blast
qed

text \<open>
  The example Loop: ticker 0 is registered under id 1, ticker 1 under id 2 and ticker 2
  under the Loop's own id; all three run. The destructor of the Network with id 1,
  another owner of the Loop being there, stops ticker 0 and leaves the two others; as
  the last owner it stops all three.
\<close>

lemma example_loop_eval:
  "tickers example_loop = [(1, [0]), (2, [1]), (0, [2])]"
  "heap example_loop 0 = Some \<lparr>is_running = True, f = Some 7\<rparr>"
  "heap example_loop (Suc 0) = Some \<lparr>is_running = True, f = Some 8\<rparr>"
  "heap example_loop 2 = Some \<lparr>is_running = True, f = Some 9\<rparr>"
  by (simp_all add: example_loop_def example_loop_ops_def new_loop_def make_handler_def
      clear_old_tickers_def on_ticker_def start_def new_ticker_def Let_def)

lemma Network_dtor_example:
  "heap (Network_dtor (\<lambda>t. True) 3 1 example_loop) 0 = Some \<lparr>is_running = False, f = None\<rparr>
   \<and> heap (Network_dtor (\<lambda>t. True) 3 1 example_loop) 1 = Some \<lparr>is_running = True, f = Some 8\<rparr>
   \<and> heap (Network_dtor (\<lambda>t. True) 3 1 example_loop) 2 = Some \<lparr>is_running = True, f = Some 9\<rparr>
   \<and> heap (Network_dtor (\<lambda>t. True) 1 1 example_loop) 0 = Some \<lparr>is_running = False, f = None\<rparr>
   \<and> heap (Network_dtor (\<lambda>t. True) 1 1 example_loop) 1 = Some \<lparr>is_running = False, f = None\<rparr>
   \<and> heap (Network_dtor (\<lambda>t. True) 1 1 example_loop) 2 = Some \<lparr>is_running = False, f = None\<rparr>"
  by (simp add: example_loop_eval Network_dtor_def Loop_dtor_def stop_thread_def
      stop_tickers_def stop_one_def stop_def)

text \<open>
  Claim C8 holds of \<^verbatim>\<open>stop_tickers\<close> but fails on the code for the Networks. Of
  65537 Networks constructed one after the other, the last is given the id 1 of the
  first, and the one before it the id 0 of the Loop. On the example Loop, where ticker
  0 was made by the first Network (under id 1) and ticker 2 by the Loop itself (under
  \<^verbatim>\<open>loop_id\<close>), the destructor of the last Network, which shares the Loop with
  the first, stops the first Network's ticker and clears its callback (the Loop's own
  ticker goes on), and the destructor of the one before it does so to the Loop's own
  ticker (the first Network's goes on).
\<close>

theorem network_dtor_stops_foreign_tickers:
  "construct_networks 65537 initial_next_net_id ! 0 = 1
   \<and> construct_networks 65537 initial_next_net_id ! 65535 = loop_id
   \<and> construct_networks 65537 initial_next_net_id ! 65536 = 1
   \<and> tickers example_loop = [(1, [0]), (2, [1]), (loop_id, [2])]
   \<and> heap example_loop 0 = Some \<lparr>is_running = True, f = Some 7\<rparr>
   \<and> heap example_loop 2 = Some \<lparr>is_running = True, f = Some 9\<rparr>
   \<and> heap (Network_dtor (\<lambda>t. True) 3 (construct_networks 65537 initial_next_net_id ! 65536)
             example_loop) 0
       = Some \<lparr>is_running = False, f = None\<rparr>
   \<and> heap (Network_dtor (\<lambda>t. True) 3 (construct_networks 65537 initial_next_net_id ! 65536)
             example_loop) 2
       = Some \<lparr>is_running = True, f = Some 9\<rparr>
   \<and> heap (Network_dtor (\<lambda>t. True) 3 (construct_networks 65537 initial_next_net_id ! 65535)
             example_loop) 2
       = Some \<lparr>is_running = False, f = None\<rparr>
   \<and> heap (Network_dtor (\<lambda>t. True) 3 (construct_networks 65537 initial_next_net_id ! 65535)
             example_loop) 0
       = Some \<lparr>is_running = True, f = Some 7\<rparr>"
  by (simp add: construct_networks_nth initial_next_net_id_def loop_id_def example_loop_eval
      Network_dtor_def stop_tickers_def stop_one_def stop_def)

section \<open>handle\_input\<close>

text \<open>
  On a list sorted by request id the bisection returns the position of the first entry
  whose id is not below the id looked for.
\<close>

lemma lower_bound_loop_correct:
  "first + len \<le> length xs \<Longrightarrow>
   sorted (map sr_req_id xs) \<Longrightarrow>
   (\<forall>k<first. sr_req_id (xs ! k) < rid) \<Longrightarrow>
   (\<forall>k. first + len \<le> k \<and> k < length xs \<longrightarrow> rid \<le> sr_req_id (xs ! k)) \<Longrightarrow>
   lower_bound_loop xs rid first len \<le> length xs
   \<and> (\<forall>k<lower_bound_loop xs rid first len. sr_req_id (xs ! k) < rid)
   \<and> (\<forall>k. lower_bound_loop xs rid first len \<le> k \<and> k < length xs \<longrightarrow> rid \<le> sr_req_id (xs ! k))"
proof (induction xs rid first len rule: lower_bound_loop.induct)
  case (1 xs rid first len)
  show ?case
  proof (cases "len = 0")
    case True
    with "1.prems" show ?thesis by (simp add: lower_bound_loop.simps [of xs rid first 0])
  next
    case False
    define half where "half = len div 2"
    define middle where "middle = first + half"
    have mid: "middle < length xs" "half < len"
      using False "1.prems"(1) by (auto simp: half_def middle_def)
    have srt: "sr_req_id (xs ! a) \<le> sr_req_id (xs ! b)" if "a \<le> b" "b < length xs" for a b
      using "1.prems"(2) that by (simp add: sorted_iff_nth_mono)
    show ?thesis
    proof (cases "sr_req_id (xs ! middle) < rid")
      case True
      have eq: "lower_bound_loop xs rid first len
                 = lower_bound_loop xs rid (middle + 1) (len - half - 1)"
        using False True
        by (subst lower_bound_loop.simps) (simp add: Let_def half_def middle_def)
      have p1: "middle + 1 + (len - half - 1) \<le> length xs"
        using "1.prems"(1) mid by (simp add: middle_def)
      have p3: "\<forall>k<middle + 1. sr_req_id (xs ! k) < rid"
      proof (intro allI impI)
        fix k assume "k < middle + 1"
        then have "k \<le> middle" by simp
        from srt [OF this mid(1)] True show "sr_req_id (xs ! k) < rid" by simp
      qed
      have p4: "\<forall>k. middle + 1 + (len - half - 1) \<le> k \<and> k < length xs
                  \<longrightarrow> rid \<le> sr_req_id (xs ! k)"
        using "1.prems"(4) mid by (simp add: middle_def)
      from "1.IH"(1) [OF False half_def middle_def True p1 "1.prems"(2) p3 p4] eq
      show ?thesis by simp
    next
      case nlt: False
      have eq: "lower_bound_loop xs rid first len = lower_bound_loop xs rid first half"
        using False nlt
        by (subst lower_bound_loop.simps) (simp add: Let_def half_def middle_def)
      have p1: "first + half \<le> length xs"
        using mid by (simp add: middle_def)
      have p4: "\<forall>k. first + half \<le> k \<and> k < length xs \<longrightarrow> rid \<le> sr_req_id (xs ! k)"
      proof (intro allI impI)
        fix k assume "first + half \<le> k \<and> k < length xs"
        then have "middle \<le> k" "k < length xs" by (simp_all add: middle_def)
        from srt [OF this] nlt show "rid \<le> sr_req_id (xs ! k)" by simp
      qed
      from "1.IH"(2) [OF False half_def middle_def nlt p1 "1.prems"(2,3) p4] eq
      show ?thesis by simp
    qed
  qed
qed

lemma lower_bound_correct:
  assumes "sorted (map sr_req_id xs)"
  shows "lower_bound xs rid \<le> length xs"
    and "k < lower_bound xs rid \<Longrightarrow> sr_req_id (xs ! k) < rid"
    and "lower_bound xs rid \<le> k \<Longrightarrow> k < length xs \<Longrightarrow> rid \<le> sr_req_id (xs ! k)"
  using lower_bound_loop_correct [of 0 "length xs" xs rid] assms
  by (simp_all add: lower_bound_def)

lemma lower_bound_exact:
  assumes "sorted (map sr_req_id xs)" "distinct (map sr_req_id xs)"
    and "i < length xs" "sr_req_id (xs ! i) = rid"
  shows "lower_bound xs rid = i"
proof -
  have strict: "sr_req_id (xs ! a) < sr_req_id (xs ! b)" if "a < b" "b < length xs" for a b
  proof -
    have "sr_req_id (xs ! a) \<le> sr_req_id (xs ! b)"
      using assms(1) that by (simp add: sorted_iff_nth_mono)
    moreover have "sr_req_id (xs ! a) \<noteq> sr_req_id (xs ! b)"
      using assms(2) that by (auto simp: distinct_conv_nth)
    ultimately show ?thesis by simp
  qed
  have "\<not> lower_bound xs rid < i"
  proof
    assume l: "lower_bound xs rid < i"
    then have "rid \<le> sr_req_id (xs ! lower_bound xs rid)"
      using lower_bound_correct(3) [OF assms(1), of rid "lower_bound xs rid"] assms(3) by simp
    with strict [OF l assms(3)] assms(4) show False by simp
  qed
  moreover have "\<not> i < lower_bound xs rid"
    using lower_bound_correct(2) [OF assms(1), of i rid] assms(4) by auto
  ultimately show ?thesis by simp
qed

text \<open>
  What the code does on a match: when an entry with exactly the message's id is in
  flight, its callback is run on the message and that entry alone is removed.
\<close>

lemma handle_input_match:
  assumes "sorted (map sr_req_id (sent_reqs st))" "distinct (map sr_req_id (sent_reqs st))"
    and "sv_bytes (data msg) (req_type msg) = ''R'' \<or> sv_bytes (data msg) (req_type msg) = ''E''"
    and "i < length (sent_reqs st)" "sr_req_id (sent_reqs st ! i) = req_id msg"
  shows "handle_input msg st =
           st\<lparr>handled := handled st @ [msg],
              calls := calls st @ [Invoke (cb (sent_reqs st ! i)) (Msg msg)],
              sent_reqs := erase i (sent_reqs st)\<rparr>"
  using assms lower_bound_exact [OF assms(1,2,4,5)]
  by (auto simp: handle_input_def Let_def)

text \<open>
  What it does without a match: when no entry has the message's id but some entry has
  a larger one, the callback of the first such entry is run on the message and that entry is
  removed. The test after the search compares the position with \<^verbatim>\<open>end()\<close> only.
\<close>

lemma handle_input_wrong_entry:
  assumes "sorted (map sr_req_id (sent_reqs st))"
    and "sv_bytes (data msg) (req_type msg) = ''R'' \<or> sv_bytes (data msg) (req_type msg) = ''E''"
    and "req_id msg \<notin> set (map sr_req_id (sent_reqs st))"
    and "i < length (sent_reqs st)" "req_id msg < sr_req_id (sent_reqs st ! i)"
  shows "\<exists>j<length (sent_reqs st). req_id msg < sr_req_id (sent_reqs st ! j)
           \<and> handle_input msg st =
               st\<lparr>handled := handled st @ [msg],
                  calls := calls st @ [Invoke (cb (sent_reqs st ! j)) (Msg msg)],
                  sent_reqs := erase j (sent_reqs st)\<rparr>"
proof -
  let ?j = "lower_bound (sent_reqs st) (req_id msg)"
  have "\<not> i < ?j"
    using lower_bound_correct(2) [OF assms(1), of i "req_id msg"] assms(5) by auto
  then have j: "?j < length (sent_reqs st)" using assms(4) by simp
  from lower_bound_correct(3) [OF assms(1), of "req_id msg" ?j] j
  have "req_id msg \<le> sr_req_id (sent_reqs st ! ?j)" by simp
  moreover have "sr_req_id (sent_reqs st ! ?j) \<noteq> req_id msg"
    using assms(3) j by (metis length_map nth_map nth_mem)
  ultimately have "req_id msg < sr_req_id (sent_reqs st ! ?j)" by simp
  moreover have "handle_input msg st =
               st\<lparr>handled := handled st @ [msg],
                  calls := calls st @ [Invoke (cb (sent_reqs st ! ?j)) (Msg msg)],
                  sent_reqs := erase ?j (sent_reqs st)\<rparr>"
    using assms(2) j by (auto simp: handle_input_def Let_def)
  ultimately show ?thesis using j by blast
qed

section \<open>check\_timeouts\<close>

text \<open>
  On a list that is not empty the sweep fails the leading
  expired entries, in order, and stops at the first entry that has not expired.
\<close>

lemma check_timeouts_loop_nonempty:
  "reqs \<noteq> [] \<Longrightarrow>
   check_timeouts_loop now reqs cs =
     Inr (dropWhile (\<lambda>r. is_expired r now) reqs,
          cs @ map (\<lambda>r. Invoke (cb r) (Timeout r)) (takeWhile (\<lambda>r. is_expired r now) reqs))"
proof (induction reqs arbitrary: cs)
  case Nil
  then show ?case by simp
next
  case (Cons r reqs)
  then show ?case by (cases reqs) (simp_all add: Let_def)
qed

lemma check_timeouts_nonempty:
  "sent_reqs st \<noteq> [] \<Longrightarrow>
   check_timeouts now st =
     Inr (st\<lparr>sent_reqs := dropWhile (\<lambda>r. is_expired r now) (sent_reqs st),
              calls := calls st @ map (\<lambda>r. Invoke (cb r) (Timeout r))
                         (takeWhile (\<lambda>r. is_expired r now) (sent_reqs st))\<rparr>)"
  by (simp add: check_timeouts_def check_timeouts_loop_nonempty)

text \<open>
  Claim C2 fails on the code: on the empty list the loop body runs once and reads
  \<^verbatim>\<open>sent_reqs.front()\<close>.
\<close>

theorem check_timeouts_empty_list:
  "check_timeouts now (st\<lparr>sent_reqs := []\<rparr>) = Inl Undefined_behaviour"
  by (simp add: check_timeouts_def)

section \<open>parse\_length\<close>

lemma find_first_of_None: "find_first_of req c = None \<longleftrightarrow> c \<notin> set req"
  by (induction req) auto

lemma find_first_of_append:
  "c \<notin> set pre \<Longrightarrow> find_first_of (pre @ c # rest) c = Some (length pre)"
  by (induction pre) auto

lemma find_first_of_Some:
  "find_first_of req c = Some pos \<Longrightarrow>
     pos < length req \<and> req ! pos = c \<and> c \<notin> set (take pos req)"
proof (induction req arbitrary: pos)
  case Nil
  then show ?case by simp
next
  case (Cons x req)
  show ?case
  proof (cases "x = c")
    case True
    with Cons.prems show ?thesis by simp
  next
    case False
    with Cons.prems obtain p where p: "find_first_of req c = Some p" "pos = Suc p"
      by auto
    from Cons.IH [OF p(1)] p(2) False show ?thesis by simp
  qed
qed

lemma parse_length_trace:
  "handled (snd (parse_length cfg req st)) = handled st
   \<and> calls (snd (parse_length cfg req st)) = calls st
   \<and> sent_reqs (snd (parse_length cfg req st)) = sent_reqs st
   \<and> buf (snd (parse_length cfg req st)) = buf st
   \<and> size_buf (snd (parse_length cfg req st)) = size_buf st"
  by (simp add: parse_length_def close_def Let_def split: option.splits sum.splits)

lemma parse_length_no_colon:
  "CHR '':'' \<notin> set req \<Longrightarrow>
   parse_length cfg req st =
     (if MAX_REQ_LEN_ENCODED cfg \<le> length req
      then (Inl (Invalid_argument ''Invalid incoming request; invalid encoding or request too large''), st)
      else (Inr 0, st))"
  by (simp add: parse_length_def find_first_of_None [symmetric])

lemma parse_length_colon:
  "CHR '':'' \<notin> set pre \<Longrightarrow>
   parse_length cfg (pre @ CHR '':'' # rest) st =
     (case from_chars pre of
        Inl ec \<Rightarrow> (Inl (Invalid_argument ''Invalid incoming request encoding!''),
                   close (BPARSER_ERROR_EXCEPTION cfg) st)
      | Inr v \<Rightarrow>
          if v = 0 then (Inl (Invalid_argument ''Invalid empty bt request!''),
                         close (BPARSER_ERROR_EXCEPTION cfg) (st\<lparr>current_len := v\<rparr>))
          else if MAX_REQ_LEN cfg < v
          then (Inl (Invalid_argument ''Request exceeds maximum size!''),
                close (BPARSER_ERROR_EXCEPTION cfg) (st\<lparr>current_len := v\<rparr>))
          else (Inr (length pre + 1), st\<lparr>current_len := v\<rparr>))"
  by (simp add: parse_length_def find_first_of_append Let_def split: sum.splits)

lemma parse_length_zero_iff:
  "fst (parse_length cfg req st) = Inr 0
     \<longleftrightarrow> CHR '':'' \<notin> set req \<and> length req < MAX_REQ_LEN_ENCODED cfg"
  by (auto simp: parse_length_def find_first_of_None [symmetric] Let_def
           split: option.splits sum.splits)

lemma process_incoming_parse_error:
  assumes "current_len st = 0" "size_buf st = []" "req \<noteq> []"
    and "parse_length cfg req st = (Inl e, st')"
  shows "process_incoming cfg req st = (Some e, st')"
  using assms
  by (subst process_incoming.simps)
     (simp add: process_incoming_iter_def length_state_def)

text \<open>
  Claim C4, as stated, fails when a colon is there but no decimal number stands before
  it: the claim's last case would have \<^verbatim>\<open>current_len\<close> set and the consumed
  length returned, and the code throws.
\<close>

theorem parse_length_not_decimal_counterexample:
  "find_first_of ''abc:'' CHR '':'' = Some 3
   \<and> from_chars (take 3 ''abc:'') = Inl invalid_argument
   \<and> parse_length example_config ''abc:'' new_stream
       = (Inl (Invalid_argument ''Invalid incoming request encoding!''),
          close (BPARSER_ERROR_EXCEPTION example_config) new_stream)
   \<and> fst (parse_length example_config ''abc:'' new_stream) \<noteq> Inr (3 + 1)"
  by (simp add: parse_length_def from_chars_def is_digit_def)

text \<open>
  Claim C4, amended. \<^verbatim>\<open>parse_length\<close> returns 0 exactly when the input has no
  colon and is shorter than \<^verbatim>\<open>MAX_REQ_LEN_ENCODED\<close>, and then changes nothing;
  with no colon and at least that many bytes it throws; with a colon, it throws and
  closes the stream with the protocol-error code when the number before the first
  colon is 0 or above \<^verbatim>\<open>MAX_REQ_LEN\<close>, and also when no number that fits
  \<^verbatim>\<open>size_t\<close> stands there; otherwise it sets \<^verbatim>\<open>current_len\<close> to that number
  and returns the number of bytes up to and including the colon. It never hands a
  message over, and when it throws in \<^verbatim>\<open>receive\<close> on a stream that waits for a
  length, the stream ends up closed with the protocol-error code and nothing is handed
  over.
\<close>

theorem parse_length_cases:
  "(fst (parse_length cfg req st) = Inr 0
      \<longleftrightarrow> CHR '':'' \<notin> set req \<and> length req < MAX_REQ_LEN_ENCODED cfg)
   \<and> (CHR '':'' \<notin> set req \<and> length req < MAX_REQ_LEN_ENCODED cfg \<longrightarrow>
        parse_length cfg req st = (Inr 0, st))
   \<and> (CHR '':'' \<notin> set req \<and> MAX_REQ_LEN_ENCODED cfg \<le> length req \<longrightarrow>
        (\<exists>e. parse_length cfg req st = (Inl e, st)))
   \<and> (CHR '':'' \<notin> set pre \<and> from_chars pre = Inr v \<and> (v = 0 \<or> MAX_REQ_LEN cfg < v) \<longrightarrow>
        (\<exists>e. parse_length cfg (pre @ CHR '':'' # rest) st
               = (Inl e, close (BPARSER_ERROR_EXCEPTION cfg) (st\<lparr>current_len := v\<rparr>))))
   \<and> (CHR '':'' \<notin> set pre \<and> from_chars pre = Inl ec \<longrightarrow>
        (\<exists>e. parse_length cfg (pre @ CHR '':'' # rest) st
               = (Inl e, close (BPARSER_ERROR_EXCEPTION cfg) st)))
   \<and> (CHR '':'' \<notin> set pre \<and> from_chars pre = Inr v \<and> 0 < v \<and> v \<le> MAX_REQ_LEN cfg \<longrightarrow>
        parse_length cfg (pre @ CHR '':'' # rest) st
          = (Inr (length pre + 1), st\<lparr>current_len := v\<rparr>))
   \<and> handled (snd (parse_length cfg req st)) = handled st
   \<and> calls (snd (parse_length cfg req st)) = calls st
   \<and> (\<not> is_closing st \<and> current_len st = 0 \<and> size_buf st = [] \<and> req \<noteq> []
        \<and> fst (parse_length cfg req st) = Inl e \<longrightarrow>
          (\<exists>st'. receive cfg req st = Inr st' \<and> is_closing st'
             \<and> close_code st' = Some (BPARSER_ERROR_EXCEPTION cfg)
             \<and> handled st' = handled st \<and> calls st' = calls st))"
proof -
  have r: "\<exists>st'. receive cfg req st = Inr st' \<and> is_closing st'
             \<and> close_code st' = Some (BPARSER_ERROR_EXCEPTION cfg)
             \<and> handled st' = handled st \<and> calls st' = calls st"
    if h: "\<not> is_closing st" "current_len st = 0" "size_buf st = []" "req \<noteq> []"
      "fst (parse_length cfg req st) = Inl e"
  proof -
    obtain st' where p: "parse_length cfg req st = (Inl e, st')"
      using h(5) by (cases "parse_length cfg req st") simp
    from parse_length_trace [of cfg req st] p
    have "handled st' = handled st" "calls st' = calls st" by simp_all
    moreover have "e \<noteq> Undefined_behaviour"
      using p by (auto simp: parse_length_def Let_def split: option.splits sum.splits if_splits)
    ultimately show ?thesis
      using process_incoming_parse_error [OF h(2,3,4) p] h(1)
      by (cases e) (simp_all add: receive_def close_def)
  qed
  show ?thesis
    using r by (simp add: parse_length_zero_iff parse_length_no_colon parse_length_colon
        parse_length_trace)
qed
theorem parse_length_cases_witness:
  "CHR '':'' \<notin> set ''16'' \<and> length ''16'' < MAX_REQ_LEN_ENCODED example_config
   \<and> parse_length example_config ''16'' new_stream = (Inr 0, new_stream)
   \<and> from_chars ''16'' = Inr 16 \<and> (0::nat) < 16 \<and> 16 \<le> MAX_REQ_LEN example_config
   \<and> parse_length example_config (''16'' @ CHR '':'' # ''l1:Ci42e3:end0:e'') new_stream
       = (Inr 3, new_stream\<lparr>current_len := 16\<rparr>)
   \<and> CHR '':'' \<notin> set ''12345678901'' \<and> MAX_REQ_LEN_ENCODED example_config \<le> length ''12345678901''
   \<and> fst (parse_length example_config ''12345678901'' new_stream)
       = Inl (Invalid_argument ''Invalid incoming request; invalid encoding or request too large'')
   \<and> receive example_config ''12345678901'' new_stream
       = Inr (close (BPARSER_ERROR_EXCEPTION example_config) new_stream)
   \<and> from_chars ''0'' = Inr 0
   \<and> is_closing (snd (parse_length example_config (''0'' @ CHR '':'' # ''x'') new_stream))
   \<and> from_chars ''abc'' = Inl invalid_argument
   \<and> is_closing (snd (parse_length example_config (''abc'' @ CHR '':'' # ''x'') new_stream))"
proof -
  have fc: "from_chars ''16'' = Inr 16" "from_chars ''0'' = Inr 0"
    "from_chars ''abc'' = Inl invalid_argument"
    by (simp_all add: from_chars_def is_digit_def dec_value_def)
  have cf: "MAX_REQ_LEN_ENCODED example_config = 10" "MAX_REQ_LEN example_config = 10485760"
    by (simp_all add: example_config_def)
  have ns: "\<not> is_closing new_stream" "current_len new_stream = 0" "size_buf new_stream = []"
    "handled new_stream = []"
    by (simp_all add: new_stream_def)
  have pl: "parse_length example_config ''12345678901'' new_stream
      = (Inl (Invalid_argument ''Invalid incoming request; invalid encoding or request too large''),
         new_stream)"
    by (simp add: parse_length_no_colon cf)
  have rc: "receive example_config ''12345678901'' new_stream
      = Inr (close (BPARSER_ERROR_EXCEPTION example_config) new_stream)"
    using process_incoming_parse_error [OF ns(2,3) _ pl] ns(1)
    by (simp add: receive_def)
  note a = parse_length_cases [of example_config "''16''" new_stream "''16''" 16
      "''l1:Ci42e3:end0:e''" invalid_argument undefined]
  note b = parse_length_cases [of example_config "''12345678901''" new_stream "''0''" 0
      "''x''" invalid_argument
      "Invalid_argument ''Invalid incoming request; invalid encoding or request too large''"]
  note c = parse_length_cases [of example_config "''12345678901''" new_stream "''abc''" 0
      "''x''" invalid_argument undefined]
  from a b c fc cf ns pl rc show ?thesis
    by (auto simp: close_def)
qed

section \<open>process\_incoming\<close>

lemma is_digit_not_colon: "is_digit c \<Longrightarrow> c \<noteq> CHR '':''"
  by (auto simp: is_digit_def)

lemma digits_no_colon: "list_all is_digit ds \<Longrightarrow> CHR '':'' \<notin> set ds"
  by (auto simp: list_all_iff dest: is_digit_not_colon)

lemma from_chars_digits:
  "ds \<noteq> [] \<Longrightarrow> list_all is_digit ds \<Longrightarrow> dec_value ds < 2 ^ 64 \<Longrightarrow>
     from_chars ds = Inr (dec_value ds)"
  by (simp add: from_chars_def Let_def list_all_iff takeWhile_eq_all_conv [THEN iffD2])

lemma handle_input_with_parser:
  "handle_input m (with_parser l sb b st) = with_parser l sb b (handle_input m st)"
  by (simp add: handle_input_def with_parser_def Let_def split: option.splits)

lemma with_parser_twice [simp]:
  "with_parser l sb b (with_parser l' sb' b' st) = with_parser l sb b st"
  by (simp add: with_parser_def)

lemma with_parser_fields [simp]:
  "current_len (with_parser l sb b st) = l"
  "size_buf (with_parser l sb b st) = sb"
  "buf (with_parser l sb b st) = b"
  "handled (with_parser l sb b st) = handled st"
  by (simp_all add: with_parser_def)

lemma with_parser_upd [simp]:
  "(with_parser l sb b st)\<lparr>current_len := l'\<rparr> = with_parser l' sb b st"
  "(with_parser l sb b st)\<lparr>size_buf := sb'\<rparr> = with_parser l sb' b st"
  "(with_parser l sb b st)\<lparr>buf := b'\<rparr> = with_parser l sb b' st"
  by (simp_all add: with_parser_def)

lemma parser_idle_with_parser: "parser_idle st \<Longrightarrow> with_parser 0 [] [] st = st"
  by (simp add: parser_idle_def with_parser_def)

lemma handled_handle_input: "handled (handle_input m st) = handled st @ [m]"
  by (simp add: handle_input_def Let_def split: option.splits)

lemma parse_length_digits:
  assumes "valid_frame cfg fr" "n \<le> length (fst fr)"
  shows "parse_length cfg (take n (fst fr)) st = (Inr 0, st)"
proof -
  have "CHR '':'' \<notin> set (fst fr)"
    using assms(1) by (simp add: valid_frame_def digits_no_colon)
  then have "CHR '':'' \<notin> set (take n (fst fr))"
    by (auto dest: in_set_takeD)
  moreover have "\<not> MAX_REQ_LEN_ENCODED cfg \<le> length (take n (fst fr))"
    using assms by (simp add: valid_frame_def)
  ultimately show ?thesis
    by (simp add: parse_length_no_colon del: length_take)
qed

lemma parse_length_frame:
  assumes "valid_frame cfg fr"
  shows "parse_length cfg (fst fr @ CHR '':'' # rest) st
           = (Inr (length (fst fr) + 1), st\<lparr>current_len := length (snd fr)\<rparr>)"
proof -
  have nc: "CHR '':'' \<notin> set (fst fr)"
    using assms by (simp add: valid_frame_def digits_no_colon)
  have "from_chars (fst fr) = Inr (length (snd fr))"
    using assms from_chars_digits [of "fst fr"] by (simp add: valid_frame_def)
  with assms show ?thesis
    by (simp add: parse_length_colon [OF nc] valid_frame_def)
qed

lemma body_state_frame:
  assumes "decode cfg body = Some m" "j < length body" "j + k \<le> length body + length rest"
  shows "body_state cfg (take k (drop j (body @ rest)))
           (with_parser (length body) [] (take j body) st) =
         (if length body \<le> j + k
          then Continue (with_parser 0 [] [] (handle_input m st)) (take (j + k - length body) rest)
          else Returned None (with_parser (length body) [] (take (j + k) body) st))"
proof (cases "length body \<le> j + k")
  case True
  let ?req = "take k (drop j (body @ rest))"
  have len: "length ?req = k" using assms(3) by simp
  have t: "take (length body - j) ?req = drop j body"
    using True assms(2) by (simp add: min_def)
  have d: "drop (length body - j) ?req = take (j + k - length body) rest"
    using True assms(2) by (simp add: drop_take add.commute)
  have b: "take j body @ drop j body = body" by simp
  show ?thesis
    using True assms(1,2) len
    by (simp add: body_state_def Let_def t d b handle_input_with_parser add.commute [of k j])
next
  case False
  then have "take k (drop j (body @ rest)) = take k (drop j body)"
    by simp
  moreover have "take j body @ take k (drop j body) = take (j + k) body"
    by (simp add: take_add)
  ultimately show ?thesis
    using False assms(2) by (simp add: body_state_def)
qed

lemma length_state_frame:
  assumes v: "valid_frame cfg fr" and n: "n \<le> length (fst fr)" and k: "0 < k"
    and nk: "n + k \<le> length (wire_frame fr @ rest)"
  shows "length_state cfg (take k (drop n (wire_frame fr @ rest)))
           (with_parser 0 (take n (fst fr)) [] st) =
         (if n + k \<le> length (fst fr)
          then Returned None (with_parser 0 (take (n + k) (fst fr)) [] st)
          else Continue (with_parser (length (snd fr)) [] [] st)
                 (take (n + k - length (fst fr) - 1) (snd fr @ rest)))"
proof -
  define ds where "ds = fst fr"
  define Y where "Y = snd fr @ rest"
  define c where "c = take k (drop n (wire_frame fr @ rest))"
  define M where "M = MAX_REQ_LEN_ENCODED cfg"
  have x: "wire_frame fr @ rest = ds @ CHR '':'' # Y"
    by (simp add: wire_frame_def ds_def Y_def)
  have dM: "length ds < M" "ds \<noteq> []"
    using v by (simp_all add: valid_frame_def ds_def M_def)
  have n': "n \<le> length ds" using n by (simp add: ds_def)
  have dropn: "drop n (wire_frame fr @ rest) = drop n ds @ CHR '':'' # Y"
    using n' by (simp add: x)
  have sb_empty: "take n ds = [] \<longleftrightarrow> n = 0"
    using dM(2) by (cases ds) (auto simp: take_Cons')
  have main: "length_state cfg c (with_parser 0 (take n ds) [] st) =
         (if n + k \<le> length ds
          then Returned None (with_parser 0 (take (n + k) ds) [] st)
          else Continue (with_parser (length (snd fr)) [] [] st)
                 (take (n + k - length ds - 1) Y))"
  proof (cases "n + k \<le> length ds")
    case True
    then have c1: "c = take k (drop n ds)"
      unfolding c_def dropn by simp
    have kM: "k < M" using True dM(1) by simp
    then have tM: "take M c = c" by (simp add: c1)
    have app: "take n ds @ c = take (n + k) ds"
      by (simp add: c1 take_add)
    have p: "parse_length cfg (take (n + k) ds) s = (Inr 0, s)" for s
      using parse_length_digits [OF v, of "n + k" s] True by (simp add: ds_def)
    show ?thesis
    proof (cases "n = 0")
      case True
      with app have "c = take k ds" by simp
      with p [of "with_parser 0 [] [] st"] True \<open>n + k \<le> length ds\<close> show ?thesis
        by (simp add: length_state_def)
    next
      case False
      with sb_empty have ne: "take n ds \<noteq> []" by simp
      from p [of "with_parser 0 (take (n + k) ds) [] st"] ne True show ?thesis
        by (simp add: length_state_def M_def [symmetric] tM app Let_def)
    qed
  next
    case False
    then have gt: "length ds - n < k" using n' by arith
    then obtain j where j: "k = Suc (length ds - n + j)"
      using less_imp_Suc_add by blast
    have j': "n + k - length ds - 1 = j" using j n' by arith
    have c2: "c = drop n ds @ CHR '':'' # take j Y"
      unfolding c_def dropn j by simp
    have "length ds - n < M" using dM(1) by simp
    then obtain i where i: "M = Suc (length ds - n + i)"
      using less_imp_Suc_add by blast
    have tM: "take n ds @ take M c = ds @ CHR '':'' # take i (take j Y)"
      unfolding c2 i by simp
    have "length ds + 1 - n = Suc (length (drop n ds))" using n' by simp
    then have dr: "drop (length ds + 1 - n) c = take j Y"
      unfolding c2 by simp
    have p: "parse_length cfg (ds @ CHR '':'' # r) s
              = (Inr (length ds + 1), s\<lparr>current_len := length (snd fr)\<rparr>)" for r s
      using parse_length_frame [OF v, of r s] by (simp add: ds_def)
    show ?thesis
    proof (cases "n = 0")
      case True
      with c2 have c3: "c = ds @ CHR '':'' # take j Y" by simp
      have "drop (Suc (length ds)) c = take j Y"
        by (simp add: c3)
      with p [of "take j Y" "with_parser 0 [] [] st"] True False c3 j'
      show ?thesis
        by (simp add: length_state_def)
    next
      case nz: False
      with sb_empty have ne: "take n ds \<noteq> []" by simp
      have len: "length (take n ds) = n" using n' by simp
      from p [of _ "with_parser 0 (take n ds @ take M c) [] st"] ne False n' dr j'
      show ?thesis
        by (simp add: length_state_def M_def [symmetric] tM Let_def len del: length_take)
    qed
  qed
  show ?thesis
    by (rule main [unfolded c_def ds_def Y_def])
qed

lemma length_wire_frame: "length (wire_frame fr) = length (fst fr) + 1 + length (snd fr)"
  by (simp add: wire_frame_def)

lemma iter_frame:
  assumes v: "valid_frame cfg fr" and n: "n < length (wire_frame fr)" and k: "0 < k"
    and nk: "n + k \<le> length (wire_frame fr @ rest)"
  shows "process_incoming_iter cfg (take k (drop n (wire_frame fr @ rest))) (part_state fr n st) =
         (if n + k < length (wire_frame fr)
          then Returned None (part_state fr (n + k) st)
          else Continue (with_parser 0 [] [] (handle_input (the (decode cfg (snd fr))) st))
                 (take (n + k - length (wire_frame fr)) rest))"
proof -
  define C where "C = take k (drop n (wire_frame fr @ rest))"
  define B where "B = length (snd fr)"
  obtain m where m: "decode cfg (snd fr) = Some m"
    using v by (auto simp: valid_frame_def)
  have B: "0 < B" using v by (simp add: valid_frame_def B_def)
  have main: "process_incoming_iter cfg C (part_state fr n st) =
         (if n + k < length (wire_frame fr)
          then Returned None (part_state fr (n + k) st)
          else Continue (with_parser 0 [] [] (handle_input m st))
                 (take (n + k - length (wire_frame fr)) rest))"
  proof (cases "n \<le> length (fst fr)")
    case True
    have ps: "part_state fr n st = with_parser 0 (take n (fst fr)) [] st"
      using True by (simp add: part_state_def)
    note ls = length_state_frame [OF v True k nk, of st, folded C_def B_def]
    show ?thesis
    proof (cases "n + k \<le> length (fst fr)")
      case le: True
      then have "length_state cfg C (with_parser 0 (take n (fst fr)) [] st)
                  = Returned None (with_parser 0 (take (n + k) (fst fr)) [] st)"
        using ls by simp
      moreover have "part_state fr (n + k) st = with_parser 0 (take (n + k) (fst fr)) [] st"
        using le by (simp add: part_state_def)
      moreover have "n + k < length (wire_frame fr)"
        using le by (simp add: length_wire_frame)
      ultimately show ?thesis
        by (simp add: process_incoming_iter_def ps)
    next
      case False
      define k' where "k' = n + k - length (fst fr) - 1"
      define R where "R = take k' (snd fr @ rest)"
      have ls': "length_state cfg C (with_parser 0 (take n (fst fr)) [] st)
                  = Continue (with_parser B [] [] st) R"
        using ls False by (simp only: if_False k'_def R_def)
      have k'1: "0 + k' \<le> length (snd fr) + length rest"
        using nk False by (simp add: k'_def length_wire_frame)
      have bs: "body_state cfg R (with_parser B [] [] st) =
         (if B \<le> 0 + k'
          then Continue (with_parser 0 [] [] (handle_input m st)) (take (0 + k' - B) rest)
          else Returned None (with_parser B [] (take (0 + k') (snd fr)) st))"
        using body_state_frame [OF m B [unfolded B_def] k'1, of st]
        unfolding R_def B_def by (simp only: drop_0 take_0)
      have a1: "B \<le> 0 + k' \<longleftrightarrow> \<not> n + k < length (wire_frame fr)"
        using False by (auto simp: k'_def length_wire_frame B_def)
      have a2: "0 + k' - B = n + k - length (wire_frame fr)"
        by (simp add: k'_def length_wire_frame B_def)
      have a3: "part_state fr (n + k) st = with_parser B [] (take (0 + k') (snd fr)) st"
        using False by (simp add: part_state_def k'_def B_def)
      have "process_incoming_iter cfg C (part_state fr n st)
              = body_state cfg R (with_parser B [] [] st)"
        by (simp add: process_incoming_iter_def ps ls')
      then show ?thesis
        unfolding bs a1 a2 a3 by simp
    qed
  next
    case False
    define j where "j = n - length (fst fr) - 1"
    have n': "n = length (fst fr) + 1 + j" using False by (simp add: j_def)
    have j1: "j < length (snd fr)" using n by (simp add: n' length_wire_frame)
    have j2: "j + k \<le> length (snd fr) + length rest"
      using nk by (simp add: n' length_wire_frame)
    have c: "C = take k (drop j (snd fr @ rest))"
      unfolding C_def n' wire_frame_def by simp
    have a1: "B \<le> j + k \<longleftrightarrow> \<not> n + k < length (wire_frame fr)"
      by (auto simp: n' length_wire_frame B_def)
    have a2: "j + k - B = n + k - length (wire_frame fr)"
      by (simp add: n' length_wire_frame B_def)
    have a3: "part_state fr (n + k) st = with_parser B [] (take (j + k) (snd fr)) st"
      by (simp add: part_state_def n' B_def)
    have a4: "part_state fr n st = with_parser B [] (take j (snd fr)) st"
      by (simp add: part_state_def n' B_def)
    note bs = body_state_frame [OF m j1 j2, of st, folded c B_def]
    have "process_incoming_iter cfg C (part_state fr n st)
              = body_state cfg C (with_parser B [] (take j (snd fr)) st)"
      using B by (simp add: process_incoming_iter_def a4)
    then show ?thesis
      unfolding bs a1 a2 a3 by simp
  qed
  show ?thesis
    using main m unfolding C_def by simp
qed

lemma state_at_0: "state_at cfg fs 0 st = with_parser 0 [] [] st"
  by (cases fs) (simp_all add: part_state_def length_wire_frame)

lemma length_wire_Cons: "wire (fr # fs) = wire_frame fr @ wire fs"
  by (simp add: wire_def)

lemma process_incoming_Nil: "process_incoming cfg [] st = (None, st)"
  by (simp add: process_incoming.simps)

lemma process_incoming_step:
  "req \<noteq> [] \<Longrightarrow>
   process_incoming cfg req st =
     (case process_incoming_iter cfg req st of
        Returned e st' \<Rightarrow> (e, st')
      | Continue st' req' \<Rightarrow> process_incoming cfg req' st')"
  by (subst process_incoming.simps) simp

lemma process_incoming_state_at:
  "list_all (valid_frame cfg) fs \<Longrightarrow> n + k \<le> length (wire fs) \<Longrightarrow>
     process_incoming cfg (take k (drop n (wire fs))) (state_at cfg fs n st)
       = (None, state_at cfg fs (n + k) st)"
proof (induction fs arbitrary: n k st)
  case Nil
  then show ?case by (simp add: wire_def process_incoming_Nil)
next
  case (Cons fr fs)
  define F where "F = length (wire_frame fr)"
  define st1 where "st1 = handle_input (the (decode cfg (snd fr))) st"
  define C where "C = take k (drop n (wire (fr # fs)))"
  from Cons.prems have v: "valid_frame cfg fr" and vs: "list_all (valid_frame cfg) fs"
    by simp_all
  have len: "length (wire (fr # fs)) = F + length (wire fs)"
    by (simp add: length_wire_Cons F_def)
  have goal: "process_incoming cfg C (state_at cfg (fr # fs) n st)
       = (None, state_at cfg (fr # fs) (n + k) st)"
  proof (cases "F \<le> n")
    case True
    have c: "C = take k (drop (n - F) (wire fs))"
      using True by (simp add: C_def length_wire_Cons F_def)
    have le: "n - F + k \<le> length (wire fs)"
      using Cons.prems(2) True by (simp add: len)
    have s1: "state_at cfg (fr # fs) n st = state_at cfg fs (n - F) st1"
      using True by (simp add: F_def st1_def)
    have s2: "state_at cfg (fr # fs) (n + k) st = state_at cfg fs (n - F + k) st1"
      using True by (simp add: F_def st1_def)
    show ?thesis
      unfolding c s1 s2 by (rule Cons.IH [OF vs le])
  next
    case False
    then have n: "n < length (wire_frame fr)" by (simp add: F_def)
    have s1: "state_at cfg (fr # fs) n st = part_state fr n st"
      using False by (simp add: F_def)
    show ?thesis
    proof (cases "k = 0")
      case True
      then show ?thesis by (simp add: C_def process_incoming_Nil)
    next
      case kz: False
      then have k: "0 < k" by simp
      have nk: "n + k \<le> length (wire_frame fr @ wire fs)"
        using Cons.prems(2) by (simp add: length_wire_Cons)
      have ne: "C \<noteq> []"
        using Cons.prems(2) k by (simp add: C_def)
      note it = iter_frame [OF v n k nk, of st, folded length_wire_Cons, folded C_def F_def st1_def]
      show ?thesis
      proof (cases "n + k < F")
        case True
        then have s2: "state_at cfg (fr # fs) (n + k) st = part_state fr (n + k) st"
          by (simp add: F_def)
        from it True show ?thesis
          unfolding s1 s2 by (simp add: process_incoming_step [OF ne])
      next
        case nlt: False
        have le: "0 + (n + k - F) \<le> length (wire fs)"
          using Cons.prems(2) by (simp add: len)
        have s2: "state_at cfg (fr # fs) (n + k) st = state_at cfg fs (0 + (n + k - F)) st1"
          using nlt by (simp add: F_def st1_def)
        from Cons.IH [OF vs le, of st1]
        have "process_incoming cfg (take (n + k - F) (wire fs)) (with_parser 0 [] [] st1)
                = (None, state_at cfg fs (0 + (n + k - F)) st1)"
          by (simp add: state_at_0)
        with it nlt show ?thesis
          unfolding s1 s2 by (simp add: process_incoming_step [OF ne])
      qed
    qed
  qed
  then show ?case by (simp only: C_def)
qed

lemma feed_state_at:
  "list_all (valid_frame cfg) fs \<Longrightarrow>
   n + length (concat cs) \<le> length (wire fs) \<Longrightarrow>
   concat cs = take (length (concat cs)) (drop n (wire fs)) \<Longrightarrow>
   feed cfg cs (state_at cfg fs n st) = (None, state_at cfg fs (n + length (concat cs)) st)"
proof (induction cs arbitrary: n)
  case Nil
  then show ?case by simp
next
  case (Cons c cs)
  define a where "a = length c"
  define b where "b = length (concat cs)"
  define X where "X = drop n (wire fs)"
  have eq: "c @ concat cs = take (a + b) X"
    using Cons.prems(3) by (simp add: a_def b_def X_def)
  have "take a (c @ concat cs) = take a (take (a + b) X)"
    by (simp only: eq)
  then have c: "c = take a X"
    by (simp add: a_def)
  have "drop a (c @ concat cs) = drop a (take (a + b) X)"
    by (simp only: eq)
  then have r: "concat cs = take b (drop (n + a) (wire fs))"
    by (simp add: a_def X_def drop_take add.commute)
  have le1: "n + a \<le> length (wire fs)" and le2: "n + a + b \<le> length (wire fs)"
    using Cons.prems(2) by (simp_all add: a_def b_def)
  have p: "process_incoming cfg c (state_at cfg fs n st) = (None, state_at cfg fs (n + a) st)"
    unfolding c X_def by (rule process_incoming_state_at [OF Cons.prems(1) le1])
  have "feed cfg cs (state_at cfg fs (n + a) st)
          = (None, state_at cfg fs (n + a + length (concat cs)) st)"
    by (rule Cons.IH [OF Cons.prems(1) le2 [unfolded b_def] r [unfolded b_def]])
  moreover have "n + a + length (concat cs) = n + length (concat (c # cs))"
    by (simp add: a_def)
  ultimately show ?case
    using p by simp
qed

lemma handled_part_state: "handled (part_state fr n st) = handled st"
  by (simp add: part_state_def)

lemma handled_state_at:
  "handled (state_at cfg fs n st)
     = handled st @ map (\<lambda>fr. the (decode cfg (snd fr))) (frames_within fs n)"
  by (induction fs arbitrary: n st) (simp_all add: handled_part_state handled_handle_input)

lemma frames_within_all: "frames_within fs (length (wire fs)) = fs"
  by (induction fs) (simp_all add: length_wire_Cons)

lemma state_at_all:
  "state_at cfg fs (length (wire fs)) st
     = with_parser 0 [] [] (foldl (\<lambda>s fr. handle_input (the (decode cfg (snd fr))) s) st fs)"
  by (induction fs arbitrary: st) (simp_all add: length_wire_Cons)

lemma parser_idle_handle_input: "parser_idle st \<Longrightarrow> parser_idle (handle_input m st)"
  by (simp add: parser_idle_def handle_input_def Let_def split: option.splits)

lemma parser_idle_foldl:
  "parser_idle st \<Longrightarrow>
     parser_idle (foldl (\<lambda>s fr. handle_input (the (decode cfg (snd fr))) s) st fs)"
  by (induction fs arbitrary: st) (simp_all add: parser_idle_handle_input)

text \<open>
  A length prefix of \<^verbatim>\<open>MAX_REQ_LEN_ENCODED\<close> digits or more is treated
  differently by the two paths of the length part, whatever the values of the
  constants: when the prefix, its colon and the body arrive in one call, the message
  is handed over; when the prefix arrives in a chunk of its own, \<^verbatim>\<open>parse_length\<close>
  throws.
\<close>

lemma process_incoming_whole_frame:
  assumes "CHR '':'' \<notin> set ds" "from_chars ds = Inr (length body)"
    and "0 < length body" "length body \<le> MAX_REQ_LEN cfg"
    and "decode cfg body = Some m" "parser_idle st"
  shows "process_incoming cfg (ds @ CHR '':'' # body) st = (None, handle_input m st)"
proof -
  have st: "st = with_parser 0 [] [] st"
    using assms(6) by (simp add: parser_idle_with_parser)
  have pl: "parse_length cfg (ds @ CHR '':'' # body) st
              = (Inr (length ds + 1), st\<lparr>current_len := length body\<rparr>)"
    using assms(2,3,4) by (simp add: parse_length_colon [OF assms(1)])
  have ls: "length_state cfg (ds @ CHR '':'' # body) st
              = Continue (with_parser (length body) [] [] st) body"
    using assms(6) pl
    by (simp add: length_state_def parser_idle_def with_parser_def)
  have bs: "body_state cfg body (with_parser (length body) [] [] st)
              = Continue (with_parser 0 [] [] (handle_input m st)) []"
    using body_state_frame [OF assms(5,3), of "length body" "[]" st] by simp
  have idle: "with_parser 0 [] [] (handle_input m st) = handle_input m st"
    using assms(6) by (simp add: parser_idle_with_parser parser_idle_handle_input)
  have "process_incoming_iter cfg (ds @ CHR '':'' # body) st = Continue (handle_input m st) []"
    using assms(6) by (simp add: process_incoming_iter_def ls bs idle parser_idle_def)
  then show ?thesis
    by (simp add: process_incoming_step process_incoming_Nil)
qed

lemma feed_long_prefix_throws:
  assumes "CHR '':'' \<notin> set ds" "MAX_REQ_LEN_ENCODED cfg \<le> length ds" "ds \<noteq> []"
    and "parser_idle st"
  shows "feed cfg (ds # rest) st
           = (Some (Invalid_argument ''Invalid incoming request; invalid encoding or request too large''), st)"
proof -
  have "parse_length cfg ds st
          = (Inl (Invalid_argument ''Invalid incoming request; invalid encoding or request too large''), st)"
    using assms(2) by (simp add: parse_length_no_colon [OF assms(1)])
  from process_incoming_parse_error [OF _ _ assms(3) this] assms(4)
  show ?thesis by (simp add: parser_idle_def)
qed

text \<open>
  Claim C3 fails on the code for a frame whose length prefix is as long as the cap
  (here ten digits, with leading zeros). Fed in one call, the message is handed to
  \<^verbatim>\<open>handle_input\<close>; so it is when the bytes are fed as the two chunks "00000" and
  the rest; fed as the two chunks "0000000016" and the rest, the first chunk throws and
  nothing is handed over.
\<close>

theorem process_incoming_chunk_boundary:
  "process_incoming example_config ''0000000016:l1:Ci42e3:end0:e'' new_stream
     = (None, new_stream\<lparr>handled := [raw_message ''l1:Ci42e3:end0:e'']\<rparr>)
   \<and> concat [''00000'', ''00016:l1:Ci42e3:end0:e''] = ''0000000016:l1:Ci42e3:end0:e''
   \<and> feed example_config [''00000'', ''00016:l1:Ci42e3:end0:e''] new_stream
     = (None, new_stream\<lparr>handled := [raw_message ''l1:Ci42e3:end0:e'']\<rparr>)
   \<and> feed example_config [''0000000016'', '':l1:Ci42e3:end0:e''] new_stream
     = (Some (Invalid_argument ''Invalid incoming request; invalid encoding or request too large''),
        new_stream)
   \<and> concat [''0000000016'', '':l1:Ci42e3:end0:e''] = ''0000000016:l1:Ci42e3:end0:e''
   \<and> handled (snd (feed example_config [''0000000016'', '':l1:Ci42e3:end0:e''] new_stream))
       \<noteq> handled (snd (process_incoming example_config ''0000000016:l1:Ci42e3:end0:e''
                            new_stream))"
proof -
  have i: "parser_idle new_stream"
    by (simp add: parser_idle_def new_stream_def)
  have fc: "from_chars ''0000000016'' = Inr (length ''l1:Ci42e3:end0:e'')"
    by (simp add: from_chars_def is_digit_def dec_value_def)
  have d: "decode example_config ''l1:Ci42e3:end0:e'' = Some (raw_message ''l1:Ci42e3:end0:e'')"
    by (simp add: example_config_def)
  have h: "handle_input (raw_message ''l1:Ci42e3:end0:e'') new_stream
             = new_stream\<lparr>handled := [raw_message ''l1:Ci42e3:end0:e'']\<rparr>"
    by (simp add: handle_input_def Let_def raw_message_def new_stream_def sv_bytes_def
        null_view_def endpoint_str_def)
  have a: "process_incoming example_config (''0000000016'' @ CHR '':'' # ''l1:Ci42e3:end0:e'')
             new_stream = (None, handle_input (raw_message ''l1:Ci42e3:end0:e'') new_stream)"
    by (rule process_incoming_whole_frame [OF _ fc _ _ d i])
       (simp_all add: example_config_def)
  have b: "feed example_config (''0000000016'' # ['':l1:Ci42e3:end0:e'']) new_stream
     = (Some (Invalid_argument ''Invalid incoming request; invalid encoding or request too large''),
        new_stream)"
    by (rule feed_long_prefix_throws [OF _ _ _ i]) (simp_all add: example_config_def)
  have n: "handled new_stream = []"
    by (simp add: new_stream_def)
  have c: "feed example_config [''00000'', ''00016:l1:Ci42e3:end0:e''] new_stream
     = (None, new_stream\<lparr>handled := [raw_message ''l1:Ci42e3:end0:e'']\<rparr>)"
    by (simp add: process_incoming.simps process_incoming_iter_def length_state_def
      body_state_def parse_length_def from_chars_def is_digit_def dec_value_def
      example_config_def new_stream_def handle_input_def Let_def raw_message_def sv_bytes_def
      null_view_def endpoint_str_def sv_offset_def lower_bound_def)
  from a b c h n show ?thesis by simp
qed

text \<open>
  Within the cap the chunk boundaries do not matter. For frames valid for the
  configuration (so with a length prefix shorter than \<^verbatim>\<open>MAX_REQ_LEN_ENCODED\<close>
  digits), a parser between two messages, and chunks whose concatenation is a prefix
  of the frames' bytes (all of them in particular): feeding the chunks one by one
  gives the same result as feeding their concatenation in one call; nothing is thrown;
  the messages handed to \<^verbatim>\<open>handle_input\<close> are, in order, those of the frames
  that lie entirely within the bytes fed, so a message is handed over only once all
  its bytes are there; and after all the bytes the stream is what handling the
  messages one after the other makes of it.
\<close>

lemma process_incoming_chunking:
  assumes "list_all (valid_frame cfg) fs" and "parser_idle st"
    and "prefix (concat chunks) (wire fs)"
  shows "feed cfg chunks st = process_incoming cfg (concat chunks) st
    \<and> fst (feed cfg chunks st) = None
    \<and> handled (snd (feed cfg chunks st))
        = handled st @ map (\<lambda>fr. the (decode cfg (snd fr)))
                           (frames_within fs (length (concat chunks)))
    \<and> (concat chunks = wire fs \<longrightarrow>
         snd (feed cfg chunks st)
           = foldl (\<lambda>s fr. handle_input (the (decode cfg (snd fr))) s) st fs)"
proof -
  obtain zs where zs: "wire fs = concat chunks @ zs"
    using assms(3) by (auto simp: prefix_def)
  have tk: "concat chunks = take (length (concat chunks)) (drop 0 (wire fs))"
    by (simp add: zs)
  have le: "0 + length (concat chunks) \<le> length (wire fs)"
    by (simp add: zs)
  have st: "state_at cfg fs 0 st = st"
    using assms(2) by (simp add: state_at_0 parser_idle_with_parser)
  have f: "feed cfg chunks st = (None, state_at cfg fs (length (concat chunks)) st)"
    using feed_state_at [OF assms(1) le tk, of st]
    by (simp only: st add_0)
  have "process_incoming cfg (take (length (concat chunks)) (drop 0 (wire fs)))
          (state_at cfg fs 0 st) = (None, state_at cfg fs (0 + length (concat chunks)) st)"
    by (rule process_incoming_state_at [OF assms(1) le])
  then have p: "process_incoming cfg (concat chunks) st
                  = (None, state_at cfg fs (length (concat chunks)) st)"
    by (simp only: st add_0 tk [symmetric])
  have e: "state_at cfg fs (length (concat chunks)) st
             = foldl (\<lambda>s fr. handle_input (the (decode cfg (snd fr))) s) st fs"
    if w: "concat chunks = wire fs"
  proof -
    have "state_at cfg fs (length (wire fs)) st
            = foldl (\<lambda>s fr. handle_input (the (decode cfg (snd fr))) s) st fs"
      using parser_idle_foldl [OF assms(2), of cfg fs]
      by (simp add: state_at_all parser_idle_with_parser)
    then show ?thesis by (simp only: w)
  qed
  have h: "handled (state_at cfg fs (length (concat chunks)) st)
        = handled st @ map (\<lambda>fr. the (decode cfg (snd fr)))
                           (frames_within fs (length (concat chunks)))"
    by (rule handled_state_at)
  show ?thesis
    unfolding f p using e h by simp
qed

lemma process_incoming_chunking_example:
  "list_all (valid_frame example_config) example_frames \<and> parser_idle new_stream
   \<and> prefix (concat [''1'', ''6:l'', ''1:Ci4'', ''2e3:end0:e'', ''10:l1:R''])
        (wire example_frames)
   \<and> feed example_config [''1'', ''6:l'', ''1:Ci4'', ''2e3:end0:e'', ''10:l1:R''] new_stream
       = process_incoming example_config ''16:l1:Ci42e3:end0:e10:l1:R'' new_stream
   \<and> handled (snd (feed example_config
         [''1'', ''6:l'', ''1:Ci4'', ''2e3:end0:e'', ''10:l1:R''] new_stream))
       = [raw_message ''l1:Ci42e3:end0:e'']"
proof -
  have v: "list_all (valid_frame example_config) example_frames"
    by (simp add: example_frames_def valid_frame_def example_config_def is_digit_def
        dec_value_def)
  have i: "parser_idle new_stream"
    by (simp add: parser_idle_def new_stream_def)
  have p: "prefix (concat [''1'', ''6:l'', ''1:Ci4'', ''2e3:end0:e'', ''10:l1:R''])
        (wire example_frames)"
    by (simp add: example_frames_def wire_def wire_frame_def)
  have c: "concat [''1'', ''6:l'', ''1:Ci4'', ''2e3:end0:e'', ''10:l1:R'']
             = ''16:l1:Ci42e3:end0:e10:l1:R''"
    by simp
  have fw: "handled new_stream @ map (\<lambda>fr. the (decode example_config (snd fr)))
              (frames_within example_frames
                 (length (concat [''1'', ''6:l'', ''1:Ci4'', ''2e3:end0:e'', ''10:l1:R''])))
             = [raw_message ''l1:Ci42e3:end0:e'']"
    by (simp add: example_frames_def wire_frame_def example_config_def new_stream_def)
  note t = process_incoming_chunking [OF v i p]
  from t [THEN conjunct1]
  have A: "feed example_config [''1'', ''6:l'', ''1:Ci4'', ''2e3:end0:e'', ''10:l1:R''] new_stream
       = process_incoming example_config ''16:l1:Ci42e3:end0:e10:l1:R'' new_stream"
    by (simp only: c)
  from t [THEN conjunct2, THEN conjunct2, THEN conjunct1]
  have B: "handled (snd (feed example_config
         [''1'', ''6:l'', ''1:Ci4'', ''2e3:end0:e'', ''10:l1:R''] new_stream))
       = [raw_message ''l1:Ci42e3:end0:e'']"
    by (simp only: fw)
  from v i p A B show ?thesis
    by (intro conjI)
qed

section \<open>An unsolicited response\<close>

text \<open>
  Claim C1 fails on the code: with the single request 5 in flight, the Response with
  request id 3, which no request in flight has, is not dropped; the completion callback
  of request 5 runs on it and request 5 leaves the list. So it is when the peer's bytes
  "10:l1:Ri3e0:e" are received.
\<close>

theorem handle_input_unsolicited_response:
  "sv_bytes (data example_response) (req_type example_response) = ''R''
   \<and> req_id example_response = 3
   \<and> map sr_req_id (sent_reqs example_stream) = [5]
   \<and> handle_input example_response example_stream =
       example_stream\<lparr>handled := [example_response],
                      calls := [Invoke 11 (Msg example_response)],
                      sent_reqs := []\<rparr>
   \<and> receive response_config ''10:l1:Ri3e0:e'' example_stream =
       Inr (example_stream\<lparr>handled := [example_response],
                           calls := [Invoke 11 (Msg example_response)],
                           sent_reqs := []\<rparr>)"
proof -
  have h: "handle_input example_response example_stream =
       example_stream\<lparr>handled := [example_response],
                      calls := [Invoke 11 (Msg example_response)],
                      sent_reqs := []\<rparr>"
    by (simp add: handle_input_def Let_def example_response_def example_stream_def
        sv_bytes_def sv_offset_def lower_bound_def erase_def)
  have i: "parser_idle example_stream" "\<not> is_closing example_stream"
    by (simp_all add: parser_idle_def example_stream_def)
  have fc: "from_chars ''10'' = Inr (length ''l1:Ri3e0:e'')"
    by (simp add: from_chars_def is_digit_def dec_value_def)
  have d: "decode response_config ''l1:Ri3e0:e'' = Some example_response"
    by (simp add: response_config_def)
  have "process_incoming response_config (''10'' @ CHR '':'' # ''l1:Ri3e0:e'') example_stream
          = (None, handle_input example_response example_stream)"
    by (rule process_incoming_whole_frame [OF _ fc _ _ d i(1)])
       (simp_all add: response_config_def example_config_def)
  then have r: "receive response_config ''10:l1:Ri3e0:e'' example_stream
                  = Inr (handle_input example_response example_stream)"
    using i(2) by (simp add: receive_def)
  have e: "sv_bytes (data example_response) (req_type example_response) = ''R''"
    "req_id example_response = 3" "map sr_req_id (sent_reqs example_stream) = [5]"
    by (simp_all add: example_response_def example_stream_def sv_bytes_def sv_offset_def)
  from e h r show ?thesis
    by (simp only: simp_thms)
qed

end
